theory Spec2Isabelle
  imports Main "HOL-Library.AList"
begin

section \<open>Paths, exceptions and the directory tree\<close>

text \<open>
  Paths and file contents are Python \<open>str\<close> and \<open>bytes\<close> values; both are modelled as
  character lists. The exceptions are the ones the operating-system calls of the program
  raise: \<open>OSError\<close> in its \<open>(errno, strerror, filename)\<close> form, and the two exceptions
  \<open>shutil\<close> raises with a ready-made message.
\<close>

type_synonym path = string
type_synonym bytes = string

datatype exc =
    OSError nat string path
  | SameFileError path path
  | SpecialFileError path

datatype file_type = Regular | Directory | Symlink | Special

text \<open>
  An \<open>os.DirEntry\<close>: its full path, the type of the entry itself (a symbolic link is a
  \<open>Symlink\<close> whatever it points to) and, where the type cannot be had without a failing
  \<open>lstat\<close>, the exception that \<open>is_dir\<close> raises.
\<close>

record dir_entry =
  de_path :: path
  de_type :: file_type
  de_stat_error :: "exc option"

definition is_dir_nofollow :: "dir_entry \<Rightarrow> exc + bool" where
  "is_dir_nofollow e =
     (case de_stat_error e of
        Some x \<Rightarrow> Inl x
      | None \<Rightarrow> Inr (de_type e = Directory))"

text \<open>
  The part of the file system a traversal reads: for each directory path what
  \<open>os.scandir\<close> gives (its entries, or the exception it raises), and \<open>os.path.realpath\<close>.
  A path without a row is one that \<open>os.scandir\<close> cannot open.
\<close>

record fs =
  fs_dirs :: "(path \<times> (exc + dir_entry list)) list"
  fs_realpath :: "path \<Rightarrow> path"

definition scandir :: "fs \<Rightarrow> path \<Rightarrow> exc + dir_entry list" where
  "scandir t p =
     (case map_of (fs_dirs t) p of
        None \<Rightarrow> Inl (OSError 2 ''No such file or directory'' p)
      | Some r \<Rightarrow> r)"

section \<open>fast_scan\<close>

text \<open>
  The inner \<open>for entry in it\<close> loop of \<open>fast_scan\<close>, with its two accumulators. An entry
  whose \<open>is_dir(follow_symlinks=False)\<close> raises is skipped.
\<close>

fun scan_entries :: "dir_entry list \<Rightarrow> path list \<Rightarrow> path list \<Rightarrow> path list \<times> path list" where
  "scan_entries [] dirs files = (dirs, files)"
| "scan_entries (e # es) dirs files =
     (case is_dir_nofollow e of
        Inl x \<Rightarrow> scan_entries es dirs files
      | Inr True \<Rightarrow> scan_entries es (dirs @ [de_path e]) files
      | Inr False \<Rightarrow> scan_entries es dirs (files @ [de_path e]))"

definition entry_paths :: "fs \<Rightarrow> path set" where
  "entry_paths t =
     (\<Union>row \<in> set (fs_dirs t). case snd row of Inl x \<Rightarrow> {} | Inr es \<Rightarrow> de_path ` set es)"

lemma finite_entry_paths: "finite (entry_paths t)"
  by (auto simp: entry_paths_def split: sum.splits)

lemma scandir_entry_paths:
  assumes "scandir t p = Inr es"
  shows "de_path ` set es \<subseteq> entry_paths t"
proof -
  from assms obtain r where r: "map_of (fs_dirs t) p = Some r" "r = Inr es"
    by (auto simp: scandir_def split: option.splits)
  then have "(p, Inr es) \<in> set (fs_dirs t)"
    by (auto dest: map_of_SomeD)
  then show ?thesis
    by (force simp: entry_paths_def)
qed

lemma scan_entries_sets:
  "scan_entries es dirs files = (ds, fls) \<Longrightarrow>
     set ds \<subseteq> set dirs \<union> de_path ` set es \<and> set fls \<subseteq> set files \<union> de_path ` set es"
  by (induction es dirs files rule: scan_entries.induct)
     (auto split: sum.splits bool.splits)

text \<open>
  The \<open>while stack\<close> loop. The stack is the Python list: \<open>pop()\<close> takes its last element
  and \<open>extend\<close> appends. The value is the sequence of triples the generator yields.
\<close>

function fast_scan_loop ::
  "fs \<Rightarrow> path list \<Rightarrow> path set \<Rightarrow> (path \<times> path list \<times> path list) list" where
  "fast_scan_loop t stack visited =
     (if stack = [] then []
      else
        let path = last stack; rest = butlast stack; real = fs_realpath t path in
        if real \<in> visited then fast_scan_loop t rest visited
        else
          (case scandir t path of
             Inl x \<Rightarrow> fast_scan_loop t rest (insert real visited)
           | Inr entries \<Rightarrow>
               (case scan_entries entries [] [] of
                  (dirs, files) \<Rightarrow>
                    (path, dirs, files) # fast_scan_loop t (rest @ dirs) (insert real visited))))"
  by pat_completeness auto

definition pending :: "fs \<Rightarrow> path list \<Rightarrow> path set \<Rightarrow> path set" where
  "pending t stack visited = fs_realpath t ` (set stack \<union> entry_paths t) - visited"

lemma finite_pending: "finite (pending t stack visited)"
  by (simp add: pending_def finite_entry_paths)

lemma pending_skip:
  "stack \<noteq> [] \<Longrightarrow> card (pending t (butlast stack) visited) \<le> card (pending t stack visited)"
  by (rule card_mono[OF finite_pending]) (auto simp: pending_def dest: in_set_butlastD)

lemma pending_visit:
  assumes "stack \<noteq> []" "fs_realpath t (last stack) \<notin> visited"
    and "set ds \<subseteq> entry_paths t"
  shows "card (pending t (butlast stack @ ds) (insert (fs_realpath t (last stack)) visited))
           < card (pending t stack visited)"
proof (rule psubset_card_mono[OF finite_pending])
  have "fs_realpath t (last stack) \<in> pending t stack visited"
    using assms(1,2) by (auto simp: pending_def)
  moreover have "pending t (butlast stack @ ds) (insert (fs_realpath t (last stack)) visited)
        \<subseteq> pending t stack visited - {fs_realpath t (last stack)}"
    using assms(3) by (auto simp: pending_def dest: in_set_butlastD)
  ultimately show "pending t (butlast stack @ ds) (insert (fs_realpath t (last stack)) visited)
        \<subset> pending t stack visited"
    by blast
qed

termination fast_scan_loop
proof (relation "measures [\<lambda>(t, stack, visited). card (pending t stack visited),
                           \<lambda>(t, stack, visited). length stack]", goal_cases)
  case 1
  show ?case by simp
next
  case (2 t stack visited path rest real)
  then show ?case
    using pending_skip[of stack t visited] by auto
next
  case (3 t stack visited path rest real x)
  then show ?case
    using pending_visit[of stack t visited "[]"] by auto
next
  case (4 t stack visited path rest real entries dirs files)
  then have "set dirs \<subseteq> entry_paths t"
    using scan_entries_sets[of entries "[]" "[]" dirs files] scandir_entry_paths[of t path entries]
    by auto
  with 4 show ?case
    using pending_visit[of stack t visited dirs] by auto
qed

declare fast_scan_loop.simps [simp del]

definition fast_scan :: "fs \<Rightarrow> path \<Rightarrow> (path \<times> path list \<times> path list) list" where
  "fast_scan t base_path = fast_scan_loop t [base_path] {}"


section \<open>String and path helpers\<close>

text \<open>
  \<open>os.path\<close> is \<open>posixpath\<close>: the separator is \<open>/\<close>. \<open>str.lower\<close> is modelled on the
  ASCII letters.
\<close>

definition isabs :: "path \<Rightarrow> bool" where
  "isabs p = (case p of [] \<Rightarrow> False | c # cs \<Rightarrow> c = CHR ''/'')"

definition basename :: "path \<Rightarrow> path" where
  "basename p = rev (takeWhile (\<lambda>c. c \<noteq> CHR ''/'') (rev p))"

definition join :: "path \<Rightarrow> path \<Rightarrow> path" where
  "join a b =
     (if isabs b then b
      else if a = [] \<or> last a = CHR ''/'' then a @ b
      else a @ ''/'' @ b)"

definition lower_char :: "char \<Rightarrow> char" where
  "lower_char c =
     (let n = (of_char c :: nat) in if 65 \<le> n \<and> n \<le> 90 then char_of (n + 32) else c)"

definition lower :: "string \<Rightarrow> string" where
  "lower s = map lower_char s"

definition endswith :: "string \<Rightarrow> string \<Rightarrow> bool" where
  "endswith s suffix =
     (length suffix \<le> length s \<and> drop (length s - length suffix) s = suffix)"

section \<open>chunked_file_hash\<close>

text \<open>
  What the program reads of a file: \<open>os.path.getsize\<close>, and the bytes that
  \<open>open(filepath, "rb")\<close> followed by reads to the end of the file delivers (or the
  exception raised on the way).
\<close>

record file_io =
  io_getsize :: "path \<Rightarrow> exc + nat"
  io_open_rb :: "path \<Rightarrow> exc + bytes"

text \<open>
  The loop \<open>for chunk in iter(lambda: f.read(chunk_size), b"")\<close>: the first argument is
  \<open>chunk_size\<close>, the second what is left of the file, the third the bytes the hasher has
  been fed. It stops at the first empty chunk.
\<close>

function read_chunks :: "nat \<Rightarrow> bytes \<Rightarrow> bytes \<Rightarrow> bytes" where
  "read_chunks chunk_size rest fed =
     (let chunk = take chunk_size rest in
      if chunk = [] then fed
      else read_chunks chunk_size (drop chunk_size rest) (fed @ chunk))"
  by pat_completeness auto
termination
  by (relation "measure (\<lambda>(chunk_size, rest, fed). length rest)") auto

declare read_chunks.simps [simp del]

text \<open>
  \<open>hashlib.md5\<close> is a parameter: \<open>md5\<close> maps the bytes fed to the hasher to the
  \<open>hexdigest()\<close> string.
\<close>

definition chunked_file_hash :: "(bytes \<Rightarrow> string) \<Rightarrow> file_io \<Rightarrow> path \<Rightarrow> exc + string" where
  "chunked_file_hash md5 io filepath =
     (case io_open_rb io filepath of
        Inl x \<Rightarrow> Inl x
      | Inr content \<Rightarrow> Inr (md5 (read_chunks (1024 * 1024) content [])))"

section \<open>find_duplicates\<close>

text \<open>
  The two dictionaries \<open>hashes\<close> and \<open>duplicates\<close> are association lists in insertion
  order. The body of the inner loop, for one \<open>filename\<close>, maps the pair of dictionaries
  to the updated pair; every \<open>continue\<close> returns the pair unchanged.
\<close>

type_synonym dup_state = "(string \<times> path) list \<times> (string \<times> path list) list"

definition extension_rejected :: "string list option \<Rightarrow> path \<Rightarrow> bool" where
  "extension_rejected file_extensions filename =
     (case file_extensions of
        None \<Rightarrow> False
      | Some exts \<Rightarrow> exts \<noteq> [] \<and> \<not> (\<exists>e \<in> set exts. endswith (lower filename) e))"

definition dup_filepath :: "path \<Rightarrow> path \<Rightarrow> path" where
  "dup_filepath dirpath filename =
     (if \<not> isabs filename then join dirpath (basename filename) else filename)"

definition record_hash :: "path \<Rightarrow> string \<Rightarrow> dup_state \<Rightarrow> dup_state" where
  "record_hash filepath file_hash st =
     (case st of (hashes, duplicates) \<Rightarrow>
        (case map_of hashes file_hash of
           Some first \<Rightarrow>
             (let appended = (case map_of duplicates file_hash of None \<Rightarrow> [] | Some l \<Rightarrow> l) @ [filepath];
                  group = (if first \<notin> set appended then appended @ [first] else appended)
              in (hashes, AList.update file_hash group duplicates))
         | None \<Rightarrow> (AList.update file_hash filepath hashes, duplicates)))"

definition dup_file ::
  "(bytes \<Rightarrow> string) \<Rightarrow> file_io \<Rightarrow> int \<Rightarrow> string list option \<Rightarrow> path \<Rightarrow> path \<Rightarrow> dup_state \<Rightarrow> dup_state" where
  "dup_file md5 io min_size file_extensions dirpath filename st =
     (if extension_rejected file_extensions filename then st
      else
        let filepath = dup_filepath dirpath filename in
        (case io_getsize io filepath of
           Inl x \<Rightarrow> st
         | Inr sz \<Rightarrow>
             if int sz < min_size then st
             else
               (case chunked_file_hash md5 io filepath of
                  Inl x \<Rightarrow> st
                | Inr file_hash \<Rightarrow> record_hash filepath file_hash st)))"

definition dup_scan ::
  "(bytes \<Rightarrow> string) \<Rightarrow> fs \<Rightarrow> file_io \<Rightarrow> path \<Rightarrow> int \<Rightarrow> string list option \<Rightarrow> dup_state" where
  "dup_scan md5 t io directory min_size file_extensions =
     fold (\<lambda>(dirpath, dirnames, filenames) st.
             fold (dup_file md5 io min_size file_extensions dirpath) filenames st)
          (fast_scan t directory) ([], [])"

definition find_duplicates ::
  "(bytes \<Rightarrow> string) \<Rightarrow> fs \<Rightarrow> file_io \<Rightarrow> path \<Rightarrow> int \<Rightarrow> string list option \<Rightarrow> (string \<times> path list) list" where
  "find_duplicates md5 t io directory min_size file_extensions =
     filter (\<lambda>(k, v). length v > 1) (snd (dup_scan md5 t io directory min_size file_extensions))"

text \<open>
  The delete and move actions of \<open>run_deduplication\<close> act on \<open>paths[1:]\<close> of every group.
\<close>

definition paths_acted_on :: "(string \<times> path list) list \<Rightarrow> path list" where
  "paths_acted_on duplicates = concat (map (\<lambda>(k, paths). drop 1 paths) duplicates)"

text \<open>
  The files that reach the line \<open>file_hash = chunked_file_hash(filepath)\<close> and get a
  digest, in the order of the traversal, each with its digest.
\<close>

definition hashed_file :: "(bytes \<Rightarrow> string) \<Rightarrow> file_io \<Rightarrow> int \<Rightarrow> string list option \<Rightarrow> path \<Rightarrow> path \<Rightarrow> (path \<times> string) list" where
  "hashed_file md5 io min_size file_extensions dirpath filename =
     (if extension_rejected file_extensions filename then []
      else
        (case io_getsize io (dup_filepath dirpath filename) of
           Inl x \<Rightarrow> []
         | Inr sz \<Rightarrow>
             if int sz < min_size then []
             else
               (case chunked_file_hash md5 io (dup_filepath dirpath filename) of
                  Inl x \<Rightarrow> []
                | Inr file_hash \<Rightarrow> [(dup_filepath dirpath filename, file_hash)])))"

definition hashed_files ::
  "(bytes \<Rightarrow> string) \<Rightarrow> fs \<Rightarrow> file_io \<Rightarrow> path \<Rightarrow> int \<Rightarrow> string list option \<Rightarrow> (path \<times> string) list" where
  "hashed_files md5 t io directory min_size file_extensions =
     concat (map (\<lambda>(dirpath, dirnames, filenames).
                    concat (map (hashed_file md5 io min_size file_extensions dirpath) filenames))
                 (fast_scan t directory))"

definition seen_with :: "string \<Rightarrow> (path \<times> string) list \<Rightarrow> path list" where
  "seen_with k xs = map fst (filter (\<lambda>(p, h). h = k) xs)"

section \<open>BackupWorker\<close>

subsection \<open>Strings the worker formats\<close>

definition dirname :: "path \<Rightarrow> path" where
  "dirname p =
     (let head = rev (dropWhile (\<lambda>c. c \<noteq> CHR ''/'') (rev p)) in
      if head \<noteq> [] \<and> head \<noteq> replicate (length head) CHR ''/''
      then rev (dropWhile (\<lambda>c. c = CHR ''/'') (rev head))
      else head)"

fun dec :: "nat \<Rightarrow> string" where
  "dec n = (if n < 10 then [char_of (48 + n)] else dec (n div 10) @ [char_of (48 + n mod 10)])"

declare dec.simps [simp del]

text \<open>
  \<open>repr\<close> of a path, for paths without quotes, backslashes or control characters, and
  \<open>str(e)\<close> of the exceptions.
\<close>

definition py_repr :: "string \<Rightarrow> string" where
  "py_repr s = [CHR 0x27] @ s @ [CHR 0x27]"

fun py_str :: "exc \<Rightarrow> string" where
  "py_str (OSError n msg f) = ''[Errno '' @ dec n @ ''] '' @ msg @ '': '' @ py_repr f"
| "py_str (SameFileError a b) = py_repr a @ '' and '' @ py_repr b @ '' are the same file''"
| "py_str (SpecialFileError f) = ''`'' @ f @ ''` is a named pipe''"

definition str_bool :: "bool \<Rightarrow> string" where
  "str_bool b = (if b then ''True'' else ''False'')"

subsection \<open>The operating system, as the worker calls it\<close>

text \<open>
  The state of the file system the worker writes to is a value of type \<open>'w\<close>; the calls
  are parameters. A call that raises returns the exception next to the state it leaves.
\<close>

record 'w backup_os =
  os_relpath :: "path \<Rightarrow> path \<Rightarrow> path"
  os_makedirs :: "'w \<Rightarrow> path \<Rightarrow> exc option \<times> 'w"
  os_getsize :: "'w \<Rightarrow> path \<Rightarrow> exc + nat"
  os_copy2 :: "'w \<Rightarrow> path \<Rightarrow> path \<Rightarrow> exc option \<times> 'w"
  os_open_rb :: "'w \<Rightarrow> path \<Rightarrow> exc + bytes"

definition io_of :: "'w backup_os \<Rightarrow> 'w \<Rightarrow> file_io" where
  "io_of os w = \<lparr>io_getsize = os_getsize os w, io_open_rb = os_open_rb os w\<rparr>"

record backup_config =
  source_dir :: path
  destination_root :: path
  patterns :: "string list"
  verify_hash :: bool
  max_workers :: "int option"
  cpu_count :: "nat option"

text \<open>
  \<open>max_workers or max(2, min(8, (os.cpu_count() or 4) * 2))\<close>.
\<close>

definition default_workers :: "nat option \<Rightarrow> int" where
  "default_workers cpus =
     max 2 (min 8 (int (case cpus of None \<Rightarrow> 4 | Some c \<Rightarrow> if c = 0 then 4 else c) * 2))"

definition effective_workers :: "backup_config \<Rightarrow> int" where
  "effective_workers cfg =
     (case max_workers cfg of
        None \<Rightarrow> default_workers (cpu_count cfg)
      | Some m \<Rightarrow> if m = 0 then default_workers (cpu_count cfg) else m)"

subsection \<open>Building the plan\<close>

type_synonym task = "path \<times> path \<times> nat"

definition pattern_selected :: "string list \<Rightarrow> path \<Rightarrow> bool" where
  "pattern_selected pats fname =
     (\<exists>p \<in> set pats.
        endswith (lower fname) (lower (dropWhile (\<lambda>c. c = CHR ''*'') p)) \<or> p = ''*'')"

record 'w planning =
  pl_world :: 'w
  pl_log :: "string list"
  pl_plan :: "task list"
  pl_total_size :: nat
  pl_total_files :: nat

definition plan_file ::
  "'w backup_os \<Rightarrow> string list \<Rightarrow> path \<Rightarrow> path \<Rightarrow> path \<Rightarrow> 'w planning \<Rightarrow> 'w planning" where
  "plan_file os pats root dst_folder fname st =
     (if \<not> pattern_selected pats fname then st
      else
        let src = join root fname;
            dst = join dst_folder fname;
            fsize = (case os_getsize os (pl_world st) src of Inl x \<Rightarrow> 0 | Inr n \<Rightarrow> n)
        in st\<lparr>pl_plan := pl_plan st @ [(src, dst, fsize)],
               pl_total_files := pl_total_files st + 1,
               pl_total_size := pl_total_size st + fsize\<rparr>)"

definition plan_dir ::
  "'w backup_os \<Rightarrow> backup_config \<Rightarrow> path \<times> path list \<times> path list \<Rightarrow> 'w planning \<Rightarrow> 'w planning" where
  "plan_dir os cfg triple st =
     (case triple of (root, dirs, files) \<Rightarrow>
        let rel_path = os_relpath os root (source_dir cfg);
            dst_folder = join (destination_root cfg) rel_path;
            made = (case os_makedirs os (pl_world st) dst_folder of
                      (None, w) \<Rightarrow> st\<lparr>pl_world := w\<rparr>
                    | (Some e, w) \<Rightarrow>
                        st\<lparr>pl_world := w,
                           pl_log := pl_log st @ [''MKDIR ERROR '' @ dst_folder @ '': '' @ py_str e]\<rparr>)
        in fold (plan_file os (patterns cfg) root dst_folder) files made)"

definition start_line :: "backup_config \<Rightarrow> string" where
  "start_line cfg =
     ''START Backup'' @ [CHR 0x0A] @ ''  Source: '' @ source_dir cfg @ [CHR 0x0A] @
     ''  DestRoot: '' @ destination_root cfg @ [CHR 0x0A] @
     ''  Verify: '' @ str_bool (verify_hash cfg)"

text \<open>
  The planning loop reads the source tree \<open>t\<close> as it stands when the run starts.
\<close>

definition build_plan :: "'w backup_os \<Rightarrow> fs \<Rightarrow> backup_config \<Rightarrow> 'w \<Rightarrow> 'w planning" where
  "build_plan os t cfg w =
     fold (plan_dir os cfg) (fast_scan t (source_dir cfg))
       \<lparr>pl_world = w, pl_log = [start_line cfg], pl_plan = [],
        pl_total_size = 0, pl_total_files = 0\<rparr>"

subsection \<open>The worker pool\<close>

text \<open>
  A result of \<open>copy_one\<close> is the tuple \<open>(ok, src, dst, fsize, err)\<close>; a progress event is
  \<open>(files_processed, file, file_size, copied_size)\<close>. The fifth argument of the signal,
  the speed, is a quotient by wall-clock time and is left out.

  \<open>copy_one\<close> runs in the pool's threads. Between two tasks only the cancellation flag,
  the two counters behind \<open>self._lock\<close> and the order of the emitted signals are shared,
  so a task is cut into four atomic steps: taking the task from the queue and reading
  \<open>self.cancelled\<close>; the \<open>try\<close> block up to the lock (\<open>makedirs\<close>, \<open>copy2\<close>, the two
  digests); the block under the lock; the \<open>emit\<close> and the \<open>COPIED\<close> log line.
\<close>

type_synonym outcome = "bool \<times> path \<times> path \<times> nat \<times> string option"
type_synonym event = "nat \<times> string \<times> nat \<times> nat"

datatype phase = Queued | Started | Copied | Counted nat nat | Finished outcome

record 'w pool =
  cancelled :: bool
  files_copied :: nat
  copied_size :: nat
  p_world :: 'w
  p_phases :: "phase list"
  p_completed :: "outcome list"
  p_taken :: nat
  p_stopped :: bool
  p_errors :: nat
  p_events :: "event list"
  p_log :: "string list"

fun in_flight :: "phase \<Rightarrow> bool" where
  "in_flight Started = True"
| "in_flight Copied = True"
| "in_flight (Counted fp cs) = True"
| "in_flight Queued = False"
| "in_flight (Finished out) = False"

text \<open>
  The executor's queue is first-in first-out and it has \<open>workers\<close> threads: a task is
  taken only when every task submitted before it has been taken and a thread is free.
\<close>

definition may_start :: "int \<Rightarrow> nat \<Rightarrow> 'w pool \<Rightarrow> bool" where
  "may_start workers i s =
     (Queued \<notin> set (take i (p_phases s)) \<and>
      int (length (filter in_flight (p_phases s))) < workers)"

definition finish :: "nat \<Rightarrow> outcome \<Rightarrow> 'w pool \<Rightarrow> 'w pool" where
  "finish i out s =
     s\<lparr>p_phases := (p_phases s)[i := Finished out], p_completed := p_completed s @ [out]\<rparr>"

definition copy_failed :: "nat \<Rightarrow> task \<Rightarrow> exc \<Rightarrow> 'w \<Rightarrow> 'w pool \<Rightarrow> 'w pool" where
  "copy_failed i tk e w s =
     (case tk of (src, dst, fsize) \<Rightarrow>
        finish i (False, src, dst, fsize, Some (py_str e))
          (s\<lparr>p_world := w,
             p_log := p_log s @ [''ERROR copying '' @ src @ '' -> '' @ dst @ '': '' @ py_str e]\<rparr>))"

text \<open>
  The \<open>try\<close> block of \<open>copy_one\<close> up to the lock.
\<close>

definition copy_io ::
  "'w backup_os \<Rightarrow> (bytes \<Rightarrow> string) \<Rightarrow> bool \<Rightarrow> nat \<Rightarrow> task \<Rightarrow> 'w pool \<Rightarrow> 'w pool" where
  "copy_io os md5 verify i tk s =
     (case tk of (src, dst, fsize) \<Rightarrow>
        (case os_makedirs os (p_world s) (dirname dst) of
           (Some e, w1) \<Rightarrow> copy_failed i tk e w1 s
         | (None, w1) \<Rightarrow>
             (case os_copy2 os w1 src dst of
                (Some e, w2) \<Rightarrow> copy_failed i tk e w2 s
              | (None, w2) \<Rightarrow>
                  if verify then
                    (case chunked_file_hash md5 (io_of os w2) src of
                       Inl e \<Rightarrow> copy_failed i tk e w2 s
                     | Inr src_hash \<Rightarrow>
                         (case chunked_file_hash md5 (io_of os w2) dst of
                            Inl e \<Rightarrow> copy_failed i tk e w2 s
                          | Inr dst_hash \<Rightarrow>
                              if src_hash \<noteq> dst_hash then
                                finish i (False, src, dst, fsize, Some ''hash mismatch'')
                                  (s\<lparr>p_world := w2,
                                     p_log := p_log s @ [''HASH MISMATCH '' @ src @ '' -> '' @ dst]\<rparr>)
                              else s\<lparr>p_world := w2, p_phases := (p_phases s)[i := Copied]\<rparr>))
                  else s\<lparr>p_world := w2, p_phases := (p_phases s)[i := Copied]\<rparr>)))"

definition worker_step ::
  "'w backup_os \<Rightarrow> (bytes \<Rightarrow> string) \<Rightarrow> bool \<Rightarrow> int \<Rightarrow> task list \<Rightarrow> nat \<Rightarrow> 'w pool \<Rightarrow> 'w pool" where
  "worker_step os md5 verify workers plan i s =
     (if i < length plan \<and> i < length (p_phases s) then
        (case plan ! i of (src, dst, fsize) \<Rightarrow>
           (case p_phases s ! i of
              Queued \<Rightarrow>
                if may_start workers i s then
                  (if cancelled s then finish i (False, src, dst, fsize, Some ''cancelled'') s
                   else s\<lparr>p_phases := (p_phases s)[i := Started]\<rparr>)
                else s
            | Started \<Rightarrow> copy_io os md5 verify i (src, dst, fsize) s
            | Copied \<Rightarrow>
                s\<lparr>files_copied := files_copied s + 1,
                   copied_size := copied_size s + fsize,
                   p_phases := (p_phases s)[i := Counted (files_copied s + 1) (copied_size s + fsize)]\<rparr>
            | Counted files_processed copied \<Rightarrow>
                finish i (True, src, dst, fsize, None)
                  (s\<lparr>p_events := p_events s @ [(files_processed, basename src, fsize, copied)],
                     p_log := p_log s @
                       [''COPIED '' @ src @ '' -> '' @ dst @ '' ('' @ dec fsize @ '' bytes)'']\<rparr>)
            | Finished out \<Rightarrow> s))
      else s)"

text \<open>
  One round of the loop \<open>for fut in as_completed(futures)\<close> in the thread of \<open>run\<close>.
\<close>

definition main_step :: "'w pool \<Rightarrow> 'w pool" where
  "main_step s =
     (if \<not> p_stopped s \<and> p_taken s < length (p_completed s) then
        (case p_completed s ! p_taken s of (ok, src, dst, fsize, err) \<Rightarrow>
           if cancelled s then s\<lparr>p_taken := p_taken s + 1, p_stopped := True\<rparr>
           else if \<not> ok then s\<lparr>p_taken := p_taken s + 1, p_errors := p_errors s + 1\<rparr>
           else s\<lparr>p_taken := p_taken s + 1\<rparr>)
      else s)"

text \<open>
  A schedule is the order in which the threads take their steps: \<open>Worker i\<close> is the next
  step of task \<open>i\<close>, \<open>Cancel\<close> a call of \<open>cancel()\<close> from the caller's thread, \<open>Main\<close> a
  round of the \<open>as_completed\<close> loop. A step that cannot be taken leaves the state as it is.
\<close>

datatype action = Worker nat | Cancel | Main

definition step ::
  "'w backup_os \<Rightarrow> (bytes \<Rightarrow> string) \<Rightarrow> bool \<Rightarrow> int \<Rightarrow> task list \<Rightarrow> action \<Rightarrow> 'w pool \<Rightarrow> 'w pool" where
  "step os md5 verify workers plan a s =
     (case a of
        Worker i \<Rightarrow> worker_step os md5 verify workers plan i s
      | Cancel \<Rightarrow> s\<lparr>cancelled := True\<rparr>
      | Main \<Rightarrow> main_step s)"

text \<open>
  Leaving the \<open>with ThreadPoolExecutor\<close> block waits for every task. Whatever the schedule
  left undone is run to its end, task after task, and the loop of \<open>run\<close> takes what is
  left of the results.
\<close>

definition drain_schedule :: "nat \<Rightarrow> action list" where
  "drain_schedule n = concat (map (\<lambda>i. replicate 4 (Worker i)) [0..<n]) @ replicate n Main"

definition pool_start :: "'w \<Rightarrow> string list \<Rightarrow> task list \<Rightarrow> 'w pool" where
  "pool_start w lg plan =
     \<lparr>cancelled = False, files_copied = 0, copied_size = 0, p_world = w,
      p_phases = replicate (length plan) Queued, p_completed = [], p_taken = 0,
      p_stopped = False, p_errors = 0, p_events = [], p_log = lg\<rparr>"

definition run_pool ::
  "'w backup_os \<Rightarrow> (bytes \<Rightarrow> string) \<Rightarrow> bool \<Rightarrow> int \<Rightarrow> task list \<Rightarrow> action list \<Rightarrow> 'w pool \<Rightarrow> 'w pool" where
  "run_pool os md5 verify workers plan schedule s =
     fold (step os md5 verify workers plan) (schedule @ drain_schedule (length plan)) s"

subsection \<open>run\<close>

record 'w backup_result =
  br_world :: 'w
  br_log :: "string list"
  br_events :: "event list"
  br_finished :: "nat \<times> bool \<times> string"

definition summary :: "nat \<Rightarrow> nat \<Rightarrow> string" where
  "summary copied errs = ''DONE. Files copied: '' @ dec copied @ ''; Errors: '' @ dec errs"

definition completion :: "'w pool \<Rightarrow> 'w backup_result" where
  "completion s =
     (if cancelled s then
        \<lparr>br_world = p_world s, br_log = p_log s @ [''CANCELLED by user''],
         br_events = p_events s,
         br_finished = (files_copied s, False, ''Backup cancelled by user.'')\<rparr>
      else
        \<lparr>br_world = p_world s, br_log = p_log s @ [summary (files_copied s) (p_errors s)],
         br_events = p_events s,
         br_finished =
           (files_copied s, p_errors s = 0,
            if p_errors s = 0 then ''Backup completed successfully.''
            else summary (files_copied s) (p_errors s))\<rparr>)"

definition pool_final ::
  "'w backup_os \<Rightarrow> (bytes \<Rightarrow> string) \<Rightarrow> fs \<Rightarrow> backup_config \<Rightarrow> action list \<Rightarrow> 'w \<Rightarrow> 'w pool" where
  "pool_final os md5 t cfg schedule w =
     (let pl = build_plan os t cfg w in
      run_pool os md5 (verify_hash cfg) (effective_workers cfg) (pl_plan pl) schedule
        (pool_start (pl_world pl) (pl_log pl) (pl_plan pl)))"

text \<open>
  \<open>BackupWorker.run\<close>. A worker count below one makes \<open>ThreadPoolExecutor\<close> raise
  \<open>ValueError\<close>, which the outer \<open>except\<close> reports.
\<close>

definition backup_run ::
  "'w backup_os \<Rightarrow> (bytes \<Rightarrow> string) \<Rightarrow> fs \<Rightarrow> backup_config \<Rightarrow> action list \<Rightarrow> 'w \<Rightarrow> 'w backup_result" where
  "backup_run os md5 t cfg schedule w =
     (let pl = build_plan os t cfg w in
      if pl_total_files pl = 0 then
        \<lparr>br_world = pl_world pl,
         br_log = pl_log pl @ [''No files found to backup in: '' @ source_dir cfg],
         br_events = [],
         br_finished = (0, False, ''No files found to backup in: '' @ source_dir cfg)\<rparr>
      else if effective_workers cfg \<le> 0 then
        \<lparr>br_world = pl_world pl,
         br_log = pl_log pl @ [''FATAL: max_workers must be greater than 0''],
         br_events = [],
         br_finished = (0, False, ''Backup failed: max_workers must be greater than 0'')\<rparr>
      else completion (pool_final os md5 t cfg schedule w))"

subsection \<open>Notions used to state the properties of the pool\<close>

text \<open>
  The state of the pool after a schedule, before the executor is left.
\<close>

definition pool_at ::
  "'w backup_os \<Rightarrow> (bytes \<Rightarrow> string) \<Rightarrow> fs \<Rightarrow> backup_config \<Rightarrow> action list \<Rightarrow> 'w \<Rightarrow> 'w pool" where
  "pool_at os md5 t cfg schedule w =
     (let pl = build_plan os t cfg w in
      fold (step os md5 (verify_hash cfg) (effective_workers cfg) (pl_plan pl)) schedule
        (pool_start (pl_world pl) (pl_log pl) (pl_plan pl)))"

text \<open>
  A task has been counted once it has passed the block under the lock.
\<close>

fun counted :: "phase \<Rightarrow> bool" where
  "counted (Counted fp cs) = True"
| "counted (Finished out) = fst out"
| "counted Queued = False"
| "counted Started = False"
| "counted Copied = False"

fun outcome_of :: "phase \<Rightarrow> outcome list" where
  "outcome_of (Finished out) = [out]"
| "outcome_of Queued = []"
| "outcome_of Started = []"
| "outcome_of Copied = []"
| "outcome_of (Counted fp cs) = []"

definition failed :: "outcome list \<Rightarrow> nat" where
  "failed outs = length (filter (\<lambda>out. \<not> fst out) outs)"

definition event_files :: "event \<Rightarrow> nat" where
  "event_files ev = fst ev"

definition event_bytes :: "event \<Rightarrow> nat" where
  "event_bytes ev = snd (snd (snd ev))"

text \<open>
  With one thread at most one task is under way; a task that has left the block under the
  lock and not yet emitted holds the current value of both counters, and the events
  emitted so far are in order and below the counters.
\<close>

definition one_at_a_time :: "'w pool \<Rightarrow> bool" where
  "one_at_a_time s =
     (length (filter in_flight (p_phases s)) \<le> 1 \<and>
      (\<forall>i < length (p_phases s). \<forall>fp cs.
         p_phases s ! i = Counted fp cs \<longrightarrow> fp = files_copied s \<and> cs = copied_size s) \<and>
      (\<forall>ev \<in> set (p_events s).
         event_files ev \<le> files_copied s \<and> event_bytes ev \<le> copied_size s) \<and>
      sorted (map event_files (p_events s)) \<and> sorted (map event_bytes (p_events s)))"

text \<open>
  The loop of \<open>run\<close> has taken a prefix of the completed futures; unless it has left by
  \<open>break\<close>, which it does only when the flag is set, \<open>errors\<close> counts the failures among
  them. There is one completed future for every finished task.
\<close>

fun finished :: "phase \<Rightarrow> bool" where
  "finished (Finished out) = True"
| "finished Queued = False"
| "finished Started = False"
| "finished Copied = False"
| "finished (Counted fp cs) = False"

definition main_loop_ok :: "'w pool \<Rightarrow> bool" where
  "main_loop_ok s =
     (p_taken s \<le> length (p_completed s) \<and>
      (p_stopped s \<longrightarrow> cancelled s) \<and>
      (\<not> p_stopped s \<longrightarrow> p_errors s = failed (take (p_taken s) (p_completed s))))"

definition futures_ok :: "'w pool \<Rightarrow> bool" where
  "futures_ok s = (length (p_completed s) = length (filter finished (p_phases s)))"


text \<open>
  The pairs of counters that have been read under the lock: those of the emitted events
  and those held by the tasks that have not emitted yet.
\<close>

fun held :: "phase \<Rightarrow> (nat \<times> nat) list" where
  "held (Counted fp cs) = [(fp, cs)]"
| "held Queued = []"
| "held Started = []"
| "held Copied = []"
| "held (Finished out) = []"

definition readings :: "'w pool \<Rightarrow> (nat \<times> nat) set" where
  "readings s =
     (\<lambda>ev. (event_files ev, event_bytes ev)) ` set (p_events s) \<union>
     set (concat (map held (p_phases s)))"

definition readings_ok :: "'w pool \<Rightarrow> bool" where
  "readings_ok s =
     ((\<forall>p \<in> readings s. fst p \<le> files_copied s \<and> snd p \<le> copied_size s) \<and>
      (\<forall>p \<in> readings s. \<forall>q \<in> readings s.
         (fst p < fst q \<longrightarrow> snd p \<le> snd q) \<and> (fst p = fst q \<longrightarrow> snd p = snd q)))"

section \<open>Concrete trees\<close>

definition stat_fail_link :: dir_entry where
  "stat_fail_link =
     \<lparr>de_path = ''/r/link'', de_type = Symlink,
      de_stat_error = Some (OSError 13 ''Permission denied'' ''/r/link'')\<rparr>"

definition stat_fail_tree :: fs where
  "stat_fail_tree = \<lparr>fs_dirs = [(''/r'', Inr [stat_fail_link])], fs_realpath = (\<lambda>p. p)\<rparr>"

text \<open>
  A directory \<open>/r\<close> with a subdirectory, a file and a symbolic link back to \<open>/r\<close>; the
  subdirectory holds a second link to \<open>/r\<close>. Listing through either link works, as it does
  on a real system.
\<close>

definition cyclic_tree :: fs where
  "cyclic_tree =
     \<lparr>fs_dirs =
        [(''/r'', Inr [\<lparr>de_path = ''/r/sub'', de_type = Directory, de_stat_error = None\<rparr>,
                      \<lparr>de_path = ''/r/a.txt'', de_type = Regular, de_stat_error = None\<rparr>,
                      \<lparr>de_path = ''/r/loop'', de_type = Symlink, de_stat_error = None\<rparr>]),
         (''/r/sub'', Inr [\<lparr>de_path = ''/r/sub/up'', de_type = Symlink, de_stat_error = None\<rparr>]),
         (''/r/loop'', Inr [\<lparr>de_path = ''/r/loop/sub'', de_type = Directory, de_stat_error = None\<rparr>]),
         (''/r/sub/up'', Inr [\<lparr>de_path = ''/r/sub/up/sub'', de_type = Directory, de_stat_error = None\<rparr>])],
      fs_realpath = (\<lambda>p. if p = ''/r/loop'' \<or> p = ''/r/sub/up'' then ''/r'' else p)\<rparr>"

text \<open>
  A directory with two files of the same ten bytes and a third file of five other bytes.
\<close>

definition dup_tree :: fs where
  "dup_tree =
     \<lparr>fs_dirs =
        [(''/d'', Inr [\<lparr>de_path = ''/d/a.txt'', de_type = Regular, de_stat_error = None\<rparr>,
                      \<lparr>de_path = ''/d/b.txt'', de_type = Regular, de_stat_error = None\<rparr>,
                      \<lparr>de_path = ''/d/c.txt'', de_type = Regular, de_stat_error = None\<rparr>])],
      fs_realpath = (\<lambda>p. p)\<rparr>"

definition dup_io :: file_io where
  "dup_io =
     \<lparr>io_getsize = (\<lambda>p. if p = ''/d/a.txt'' \<or> p = ''/d/b.txt'' then Inr 10
                         else if p = ''/d/c.txt'' then Inr 5
                         else Inl (OSError 2 ''No such file or directory'' p)),
      io_open_rb = (\<lambda>p. if p = ''/d/a.txt'' \<or> p = ''/d/b.txt'' then Inr ''0123456789''
                         else if p = ''/d/c.txt'' then Inr ''abcde''
                         else Inl (OSError 2 ''No such file or directory'' p))\<rparr>"

text \<open>
  A plain file system for the backup worker: the state maps the path of every regular
  file to its bytes. \<open>shutil.copy2\<close> raises \<open>SameFileError\<close> when source and destination
  are the same file and otherwise writes the bytes of the source to the destination;
  \<open>os.makedirs(exist_ok=True)\<close> succeeds; \<open>os.path.relpath\<close> is given for a path at or
  below the start directory.
\<close>

definition no_such_file :: "path \<Rightarrow> exc" where
  "no_such_file p = OSError 2 ''No such file or directory'' p"

definition plain_os :: "(path \<Rightarrow> bytes option) backup_os" where
  "plain_os =
     \<lparr>os_relpath = (\<lambda>p start. if p = start then ''.'' else drop (length start + 1) p),
      os_makedirs = (\<lambda>w p. (None, w)),
      os_getsize = (\<lambda>w p. case w p of None \<Rightarrow> Inl (no_such_file p) | Some b \<Rightarrow> Inr (length b)),
      os_copy2 = (\<lambda>w src dst.
         if src = dst then (Some (SameFileError src dst), w)
         else (case w src of
                 None \<Rightarrow> (Some (no_such_file src), w)
               | Some b \<Rightarrow> (None, w(dst \<mapsto> b)))),
      os_open_rb = (\<lambda>w p. case w p of None \<Rightarrow> Inl (no_such_file p) | Some b \<Rightarrow> Inr b)\<rparr>"

text \<open>
  The scenario of the specification: a source directory with three files of one hundred
  bytes each, backed up with the pattern \<open>*\<close> and verification.
\<close>

definition three_files_tree :: fs where
  "three_files_tree =
     \<lparr>fs_dirs =
        [(''/src'', Inr [\<lparr>de_path = ''/src/a.txt'', de_type = Regular, de_stat_error = None\<rparr>,
                        \<lparr>de_path = ''/src/b.txt'', de_type = Regular, de_stat_error = None\<rparr>,
                        \<lparr>de_path = ''/src/c.txt'', de_type = Regular, de_stat_error = None\<rparr>])],
      fs_realpath = (\<lambda>p. p)\<rparr>"

definition three_files_world :: "path \<Rightarrow> bytes option" where
  "three_files_world =
     (\<lambda>p. if p = ''/src/a.txt'' then Some (replicate 100 CHR ''a'')
          else if p = ''/src/b.txt'' then Some (replicate 100 CHR ''b'')
          else if p = ''/src/c.txt'' then Some (replicate 100 CHR ''c'')
          else None)"

definition three_files_config :: backup_config where
  "three_files_config =
     \<lparr>source_dir = ''/src'', destination_root = ''/dst'', patterns = [''*''],
      verify_hash = True, max_workers = None, cpu_count = Some 4\<rparr>"

text \<open>
  A source directory without entries.
\<close>

definition empty_dir_tree :: fs where
  "empty_dir_tree = \<lparr>fs_dirs = [(''/src'', Inr [])], fs_realpath = (\<lambda>p. p)\<rparr>"

text \<open>
  A run in which copies succeed. The source directory is given by the relative path \<open>s\<close>
  and holds the files \<open>a\<close> and \<open>b\<close> and a subdirectory that is also named \<open>s\<close> and holds
  files \<open>a\<close> and \<open>b\<close> of three and five bytes. The entries of the top directory are
  \<open>s/a\<close> and \<open>s/b\<close>; joined to the root \<open>s\<close> they name the files of the subdirectory,
  which exist.
\<close>

definition nested_tree :: fs where
  "nested_tree =
     \<lparr>fs_dirs =
        [(''s'', Inr [\<lparr>de_path = ''s/a'', de_type = Regular, de_stat_error = None\<rparr>,
                     \<lparr>de_path = ''s/b'', de_type = Regular, de_stat_error = None\<rparr>,
                     \<lparr>de_path = ''s/s'', de_type = Directory, de_stat_error = None\<rparr>]),
         (''s/s'', Inr [\<lparr>de_path = ''s/s/a'', de_type = Regular, de_stat_error = None\<rparr>,
                       \<lparr>de_path = ''s/s/b'', de_type = Regular, de_stat_error = None\<rparr>])],
      fs_realpath = (\<lambda>p. ''/home/u/'' @ p)\<rparr>"

definition nested_world :: "path \<Rightarrow> bytes option" where
  "nested_world =
     (\<lambda>p. if p = ''s/a'' then Some ''x''
          else if p = ''s/b'' then Some ''y''
          else if p = ''s/s/a'' then Some ''aaa''
          else if p = ''s/s/b'' then Some ''bbbbb''
          else None)"

definition nested_config :: backup_config where
  "nested_config =
     \<lparr>source_dir = ''s'', destination_root = ''d'', patterns = [''*''],
      verify_hash = True, max_workers = None, cpu_count = Some 4\<rparr>"

definition nested_plan :: "task list" where
  "nested_plan = [(''s/s/a'', ''d/./s/a'', 3), (''s/s/b'', ''d/./s/b'', 5),
                 (''s/s/s/s/a'', ''d/s/s/s/a'', 0), (''s/s/s/s/b'', ''d/s/s/s/b'', 0)]"


definition nested_config_single :: backup_config where
  "nested_config_single = nested_config\<lparr>max_workers := Some 1\<rparr>"

text \<open>
  Two tasks interleaved: each passes the block under the lock in the order of the plan,
  the second emits before the first.
\<close>

definition overtaking :: "action list" where
  "overtaking =
     [Worker 0, Worker 0, Worker 0, Worker 1, Worker 1, Worker 1, Worker 1, Worker 0]"

text \<open>
  A destination that silently loses data: \<open>shutil.copy2\<close> returns without an exception,
  but only the first byte of the source has reached the destination.
\<close>

definition lossy_os :: "(path \<Rightarrow> bytes option) backup_os" where
  "lossy_os =
     plain_os\<lparr>os_copy2 := (\<lambda>w src dst.
        if src = dst then (Some (SameFileError src dst), w)
        else (case w src of
                None \<Rightarrow> (Some (no_such_file src), w)
              | Some b \<Rightarrow> (None, w(dst \<mapsto> take 1 b))))\<rparr>"

section \<open>Properties of the traversal\<close>

lemma scan_entries_eq:
  "scan_entries es dirs files =
     (dirs @ map de_path (filter (\<lambda>e. de_stat_error e = None \<and> de_type e = Directory) es),
      files @ map de_path (filter (\<lambda>e. de_stat_error e = None \<and> de_type e \<noteq> Directory) es))"
  by (induction es dirs files rule: scan_entries.induct)
     (auto simp: is_dir_nofollow_def split: option.splits)

lemma loop_empty: "fast_scan_loop t [] visited = []"
  by (simp add: fast_scan_loop.simps)

lemma loop_skip:
  "stack \<noteq> [] \<Longrightarrow> fs_realpath t (last stack) \<in> visited \<Longrightarrow>
     fast_scan_loop t stack visited = fast_scan_loop t (butlast stack) visited"
  by (simp add: fast_scan_loop.simps[of t stack] Let_def)

lemma loop_error:
  "stack \<noteq> [] \<Longrightarrow> fs_realpath t (last stack) \<notin> visited \<Longrightarrow> scandir t (last stack) = Inl x \<Longrightarrow>
     fast_scan_loop t stack visited =
       fast_scan_loop t (butlast stack) (insert (fs_realpath t (last stack)) visited)"
  by (simp add: fast_scan_loop.simps[of t stack] Let_def)

lemma loop_yield:
  "stack \<noteq> [] \<Longrightarrow> fs_realpath t (last stack) \<notin> visited \<Longrightarrow> scandir t (last stack) = Inr es \<Longrightarrow>
     scan_entries es [] [] = (ds, fls) \<Longrightarrow>
     fast_scan_loop t stack visited =
       (last stack, ds, fls) #
         fast_scan_loop t (butlast stack @ ds) (insert (fs_realpath t (last stack)) visited)"
  by (simp add: fast_scan_loop.simps[of t stack] Let_def)

lemma loop_induct [case_names empty skip error yield]:
  assumes "\<And>visited. P [] visited"
    and "\<And>stack visited. stack \<noteq> [] \<Longrightarrow> fs_realpath t (last stack) \<in> visited \<Longrightarrow>
           P (butlast stack) visited \<Longrightarrow> P stack visited"
    and "\<And>stack visited x. stack \<noteq> [] \<Longrightarrow> fs_realpath t (last stack) \<notin> visited \<Longrightarrow>
           scandir t (last stack) = Inl x \<Longrightarrow>
           P (butlast stack) (insert (fs_realpath t (last stack)) visited) \<Longrightarrow> P stack visited"
    and "\<And>stack visited es ds fls. stack \<noteq> [] \<Longrightarrow> fs_realpath t (last stack) \<notin> visited \<Longrightarrow>
           scandir t (last stack) = Inr es \<Longrightarrow> scan_entries es [] [] = (ds, fls) \<Longrightarrow>
           set ds \<subseteq> entry_paths t \<Longrightarrow>
           P (butlast stack @ ds) (insert (fs_realpath t (last stack)) visited) \<Longrightarrow> P stack visited"
  shows "P stack visited"
proof -
  have "t' = t \<Longrightarrow> P stack visited" for t'
  proof (induction t' stack visited rule: fast_scan_loop.induct)
  case (1 t' stack visited)
  note IH = "1.IH"[unfolded \<open>t' = t\<close>]
  show ?case
  proof (cases "stack = []")
    case True
    then show ?thesis using assms(1) by simp
  next
    case ne: False
    show ?thesis
    proof (cases "fs_realpath t (last stack) \<in> visited")
      case True
      show ?thesis
        by (rule assms(2)[OF ne True]) (rule IH(1)[OF ne refl refl refl True refl])
    next
      case nv: False
      show ?thesis
      proof (cases "scandir t (last stack)")
        case (Inl x)
        show ?thesis
          by (rule assms(3)[OF ne nv Inl]) (rule IH(2)[OF ne refl refl refl nv Inl refl])
      next
        case (Inr es)
        obtain ds fls where se: "scan_entries es [] [] = (ds, fls)"
          by (cases "scan_entries es [] []")
        have sub: "set ds \<subseteq> entry_paths t"
          using scan_entries_sets[OF se] scandir_entry_paths[OF Inr] by auto
        show ?thesis
          by (rule assms(4)[OF ne nv Inr se sub])
             (rule IH(3)[OF ne refl refl refl nv Inr se[symmetric] refl])
      qed
    qed
  qed
  qed
  then show ?thesis by simp
qed

lemma loop_unvisited:
  "x \<in> set (fast_scan_loop t stack visited) \<Longrightarrow>
     fs_realpath t (fst x) \<notin> visited \<and> fs_realpath t (fst x) \<in> pending t stack visited"
proof (induction stack visited rule: loop_induct[of _ t])
  case (empty visited)
  then show ?case by (simp add: loop_empty)
next
  case (skip stack visited)
  then show ?case
    by (auto simp: loop_skip pending_def dest: in_set_butlastD)
next
  case (error stack visited e)
  then show ?case
    by (auto simp: loop_error pending_def dest: in_set_butlastD)
next
  case (yield stack visited es ds fls)
  then show ?case
    by (auto simp: loop_yield pending_def dest: in_set_butlastD)
qed

lemma loop_distinct:
  "distinct (map (\<lambda>x. fs_realpath t (fst x)) (fast_scan_loop t stack visited))"
proof (induction stack visited rule: loop_induct[of _ t])
  case (yield stack visited es ds fls)
  then show ?case
    by (auto simp: loop_yield dest: loop_unvisited)
qed (simp_all add: loop_empty loop_skip loop_error)

lemma loop_length:
  "length (fast_scan_loop t stack visited) \<le> card (pending t stack visited)"
proof -
  let ?xs = "map (\<lambda>x. fs_realpath t (fst x)) (fast_scan_loop t stack visited)"
  have "length (fast_scan_loop t stack visited) = card (set ?xs)"
    using distinct_card[OF loop_distinct[of t stack visited]] by simp
  also have "\<dots> \<le> card (pending t stack visited)"
    by (rule card_mono[OF finite_pending]) (auto dest: loop_unvisited)
  finally show ?thesis .
qed

text \<open>
  Claim C2. \<open>fast_scan\<close> is a total function (its recursion is well-founded for every
  tree and every root, symbolic-link cycles included), the sequence it yields is finite,
  with at most one triple per canonical path among the root and the listed entries, and no
  two yielded directories have the same \<open>os.path.realpath\<close>.
\<close>

theorem fast_scan_visits_once:
  "distinct (map (\<lambda>(root, dirs, files). fs_realpath t root) (fast_scan t base_path)) \<and>
   length (fast_scan t base_path) \<le> card (fs_realpath t ` insert base_path (entry_paths t))"
proof -
  have "(\<lambda>(root, dirs, files). fs_realpath t root) = (\<lambda>x. fs_realpath t (fst x))"
    by auto
  moreover have "pending t [base_path] {} = fs_realpath t ` insert base_path (entry_paths t)"
    by (simp add: pending_def)
  ultimately show ?thesis
    using loop_distinct[of t "[base_path]" "{}"] loop_length[of t "[base_path]" "{}"]
    by (simp add: fast_scan_def case_prod_unfold)
qed

lemma loop_origin:
  "(root, dirs, files) \<in> set (fast_scan_loop t stack visited) \<Longrightarrow>
     root \<in> set stack \<or>
     (\<exists>(r, ds, fls) \<in> set (fast_scan_loop t stack visited). root \<in> set ds)"
proof (induction stack visited rule: loop_induct[of _ t])
  case (empty visited)
  then show ?case by (simp add: loop_empty)
next
  case (skip stack visited)
  then show ?case
    by (auto simp: loop_skip dest: in_set_butlastD)
next
  case (error stack visited e)
  then show ?case
    by (auto simp: loop_error dest: in_set_butlastD)
next
  case (yield stack visited es ds fls)
  then show ?case
    by (fastforce simp: loop_yield dest: in_set_butlastD)
qed

lemma loop_listing:
  "(root, dirs, files) \<in> set (fast_scan_loop t stack visited) \<Longrightarrow>
     \<exists>es. scandir t root = Inr es \<and> scan_entries es [] [] = (dirs, files)"
proof (induction stack visited rule: loop_induct[of _ t])
  case (yield stack visited es ds fls)
  then show ?case
    by (auto simp: loop_yield)
qed (simp_all add: loop_empty loop_skip loop_error)


text \<open>
  Claim C9, as stated, fails where classifying a symbolic link raises: the entry is
  dropped by the \<open>except\<close> branch and reaches neither list.
\<close>

theorem symlink_not_always_in_files:
  "scandir stat_fail_tree ''/r'' = Inr [stat_fail_link] \<and>
   de_type stat_fail_link = Symlink \<and>
   fast_scan stat_fail_tree ''/r'' = [(''/r'', [], [])]"
  by code_simp


text \<open>
  Claim C9, amended. For every yielded triple, \<open>subdirs\<close> holds exactly the paths of the
  listed entries that classify without an exception as directories proper (never a symbolic
  link), \<open>files\<close> holds exactly the paths of the entries that classify as anything else
  (symbolic links included, also those that point to directories), and the yielded
  directory is the root or was put into \<open>subdirs\<close> by a yielded triple: only directories
  proper are ever pushed and descended into.
\<close>

theorem fast_scan_classification:
  assumes "(root, dirs, files) \<in> set (fast_scan t base_path)"
  shows "(\<exists>es. scandir t root = Inr es \<and>
            dirs = map de_path (filter (\<lambda>e. de_stat_error e = None \<and> de_type e = Directory) es) \<and>
            files = map de_path (filter (\<lambda>e. de_stat_error e = None \<and> de_type e \<noteq> Directory) es)) \<and>
         (root = base_path \<or> (\<exists>(r, ds, fls) \<in> set (fast_scan t base_path). root \<in> set ds))"
  using loop_listing[of root dirs files t "[base_path]" "{}"]
    loop_origin[of root dirs files t "[base_path]" "{}"] assms
  by (auto simp: fast_scan_def scan_entries_eq)

theorem fast_scan_classification_witness:
  "(''/r/sub'', [], [''/r/sub/up'']) \<in> set (fast_scan cyclic_tree ''/r'') \<and>
   scandir cyclic_tree ''/r/sub'' =
     Inr [\<lparr>de_path = ''/r/sub/up'', de_type = Symlink, de_stat_error = None\<rparr>] \<and>
   (''/r'', [''/r/sub''], [''/r/a.txt'', ''/r/loop'']) \<in> set (fast_scan cyclic_tree ''/r'') \<and>
   ''/r/sub'' \<in> set [''/r/sub'']"
proof -
  have h: "(''/r/sub'', [], [''/r/sub/up'']) \<in> set (fast_scan cyclic_tree ''/r'')"
    by code_simp
  have "fast_scan cyclic_tree ''/r'' =
     [(''/r'', [''/r/sub''], [''/r/a.txt'', ''/r/loop'']), (''/r/sub'', [], [''/r/sub/up''])]"
    by code_simp
  moreover have "scandir cyclic_tree ''/r/sub'' =
     Inr [\<lparr>de_path = ''/r/sub/up'', de_type = Symlink, de_stat_error = None\<rparr>]"
    by code_simp
  ultimately show ?thesis
    using fast_scan_classification[OF h] by simp
qed

section \<open>Properties of the duplicate detector\<close>

lemma read_chunks_eq: "read_chunks n rest fed = (if n = 0 then fed else fed @ rest)"
proof (induction n rest fed rule: read_chunks.induct)
  case (1 n rest fed)
  show ?case
  proof (cases "take n rest = []")
    case True
    then show ?thesis by (auto simp: read_chunks.simps[of n rest])
  next
    case False
    then have "n \<noteq> 0" by auto
    with False "1.IH"[OF refl False] show ?thesis
      by (simp add: read_chunks.simps[of n rest] Let_def)
  qed
qed

lemma chunked_file_hash_eq:
  "chunked_file_hash md5 io p = (case io_open_rb io p of Inl x \<Rightarrow> Inl x | Inr c \<Rightarrow> Inr (md5 c))"
proof -
  have "(1024 * 1024 :: nat) \<noteq> 0" by simp
  then show ?thesis
    unfolding chunked_file_hash_def read_chunks_eq by (simp split: sum.splits)
qed


lemma dup_tree_scan:
  "fast_scan dup_tree ''/d'' = [(''/d'', [], [''/d/a.txt'', ''/d/b.txt'', ''/d/c.txt''])]"
  by code_simp

lemma dup_tree_duplicates: "find_duplicates (\<lambda>b. b) dup_tree dup_io ''/d'' 0 None =
   [(''0123456789'', [''/d/b.txt'', ''/d/a.txt''])]"
  by (simp add: find_duplicates_def dup_scan_def dup_tree_scan dup_file_def
      extension_rejected_def dup_filepath_def isabs_def dup_io_def chunked_file_hash_eq
      record_hash_def)

lemma dup_tree_hashed: "hashed_files (\<lambda>b. b) dup_tree dup_io ''/d'' 0 None =
   [(''/d/a.txt'', ''0123456789''), (''/d/b.txt'', ''0123456789''), (''/d/c.txt'', ''abcde'')]"
  by (simp add: hashed_files_def dup_tree_scan hashed_file_def
      extension_rejected_def dup_filepath_def isabs_def dup_io_def chunked_file_hash_eq)

lemma set_update_subset: "set (AList.update k v al) \<subseteq> insert (k, v) (set al)"
  by (induction al) auto

lemma dup_file_eq:
  "dup_file md5 io min_size exts dirpath filename st =
     fold (\<lambda>(p, h). record_hash p h) (hashed_file md5 io min_size exts dirpath filename) st"
  by (simp add: dup_file_def hashed_file_def Let_def split: sum.splits)

lemma fold_dup_file_eq:
  "fold (dup_file md5 io min_size exts dirpath) filenames st =
     fold (\<lambda>(p, h). record_hash p h)
       (concat (map (hashed_file md5 io min_size exts dirpath) filenames)) st"
  by (induction filenames arbitrary: st) (simp_all add: dup_file_eq)

lemma fold_triples_eq:
  "fold (\<lambda>(dirpath, dirnames, filenames) st.
           fold (dup_file md5 io min_size exts dirpath) filenames st) triples st =
   fold (\<lambda>(p, h). record_hash p h)
     (concat (map (\<lambda>(dirpath, dirnames, filenames).
                concat (map (hashed_file md5 io min_size exts dirpath) filenames)) triples)) st"
  by (induction triples arbitrary: st) (auto simp: fold_dup_file_eq)

lemma dup_scan_eq:
  "dup_scan md5 t io directory min_size exts =
     fold (\<lambda>(p, h). record_hash p h) (hashed_files md5 t io directory min_size exts) ([], [])"
  by (simp add: dup_scan_def hashed_files_def fold_triples_eq)

lemma hashed_file_digest:
  "(p, h) \<in> set (hashed_file md5 io min_size exts dirpath filename) \<Longrightarrow>
     chunked_file_hash md5 io p = Inr h"
  by (auto simp: hashed_file_def split: if_splits sum.splits)

lemma hashed_files_digest:
  "(p, h) \<in> set (hashed_files md5 t io directory min_size exts) \<Longrightarrow>
     chunked_file_hash md5 io p = Inr h"
  by (auto simp: hashed_files_def dest: hashed_file_digest)

definition from_seen :: "(path \<times> string) set \<Rightarrow> dup_state \<Rightarrow> bool" where
  "from_seen X st =
     ((\<forall>(h, p) \<in> set (fst st). (p, h) \<in> X) \<and>
      (\<forall>(h, l) \<in> set (snd st). \<forall>p \<in> set l. (p, h) \<in> X))"

lemma record_hash_from_seen:
  assumes "from_seen X st" "(p, h) \<in> X"
  shows "from_seen X (record_hash p h st)"
proof (cases st)
  case (Pair hashes dups)
  show ?thesis
  proof (cases "map_of hashes h")
    case None
    with Pair assms show ?thesis
      using set_update_subset[of h p hashes]
      by (auto simp: record_hash_def from_seen_def)
  next
    case (Some first)
    then have first: "(first, h) \<in> X"
      using assms(1) Pair by (auto simp: from_seen_def dest: map_of_SomeD)
    have old: "(q, h) \<in> X" if "map_of dups h = Some l" "q \<in> set l" for l q
    proof -
      from that(1) have "(h, l) \<in> set dups" by (rule map_of_SomeD)
      with assms(1) Pair that(2) show ?thesis by (auto simp: from_seen_def)
    qed
    let ?app = "(case map_of dups h of None \<Rightarrow> [] | Some l \<Rightarrow> l) @ [p]"
    let ?grp = "if first \<notin> set ?app then ?app @ [first] else ?app"
    have "\<forall>q \<in> set (case map_of dups h of None \<Rightarrow> [] | Some l \<Rightarrow> l). (q, h) \<in> X"
      by (cases "map_of dups h") (auto intro: old)
    then have grp: "\<forall>q \<in> set ?grp. (q, h) \<in> X"
      using first assms(2) by auto
    have "record_hash p h st = (hashes, AList.update h ?grp dups)"
      using Pair Some by (simp add: record_hash_def Let_def)
    moreover have "\<forall>(k, l) \<in> set (AList.update h ?grp dups). \<forall>q \<in> set l. (q, k) \<in> X"
    proof -
      have "\<forall>(k, l) \<in> insert (h, ?grp) (set dups). \<forall>q \<in> set l. (q, k) \<in> X"
        using grp assms(1) Pair by (auto simp: from_seen_def)
      then show ?thesis
        using set_update_subset[of h ?grp dups] by blast
    qed
    ultimately show ?thesis
      using assms(1) Pair by (simp add: from_seen_def)
  qed
qed

lemma fold_record_hash_from_seen:
  "from_seen X st \<Longrightarrow> set xs \<subseteq> X \<Longrightarrow>
     from_seen X (fold (\<lambda>(p, h). record_hash p h) xs st)"
proof (induction xs arbitrary: st)
  case Nil
  then show ?case by simp
next
  case (Cons x xs)
  obtain p h where x: "x = (p, h)" by (cases x)
  from Cons.prems x have "from_seen X (record_hash p h st)"
    by (auto intro: record_hash_from_seen)
  from Cons.IH[OF this] Cons.prems(2) x show ?case by simp
qed

text \<open>
  Claim C3. Every group \<open>find_duplicates\<close> returns has at least two member paths, and
  \<open>chunked_file_hash\<close> of every member is the key of its group.
\<close>

theorem find_duplicates_groups:
  assumes "(k, v) \<in> set (find_duplicates md5 t io directory min_size file_extensions)"
  shows "2 \<le> length v \<and> (\<forall>p \<in> set v. chunked_file_hash md5 io p = Inr k)"
proof -
  let ?xs = "hashed_files md5 t io directory min_size file_extensions"
  have "from_seen (set ?xs) ([], [])"
    by (simp add: from_seen_def)
  then have "from_seen (set ?xs) (dup_scan md5 t io directory min_size file_extensions)"
    unfolding dup_scan_eq by (rule fold_record_hash_from_seen) simp
  moreover from assms
  have "(k, v) \<in> set (snd (dup_scan md5 t io directory min_size file_extensions))"
    and "1 < length v"
    by (auto simp: find_duplicates_def)
  ultimately have "\<forall>p \<in> set v. (p, k) \<in> set ?xs"
    by (auto simp: from_seen_def)
  with \<open>1 < length v\<close> show ?thesis
    by (auto dest: hashed_files_digest)
qed

theorem find_duplicates_groups_witness:
  "(''0123456789'', [''/d/b.txt'', ''/d/a.txt''])
     \<in> set (find_duplicates (\<lambda>b. b) dup_tree dup_io ''/d'' 0 None) \<and>
   2 \<le> length [''/d/b.txt'', ''/d/a.txt''] \<and>
   chunked_file_hash (\<lambda>b. b) dup_io ''/d/b.txt'' = Inr ''0123456789'' \<and>
   chunked_file_hash (\<lambda>b. b) dup_io ''/d/a.txt'' = Inr ''0123456789''"
proof -
  have h: "(''0123456789'', [''/d/b.txt'', ''/d/a.txt''])
     \<in> set (find_duplicates (\<lambda>b. b) dup_tree dup_io ''/d'' 0 None)"
    by (simp add: dup_tree_duplicates)
  from find_duplicates_groups[OF h] h show ?thesis by simp
qed


lemma seen_with_snoc:
  "seen_with k (xs @ [(p, h)]) = seen_with k xs @ (if h = k then [p] else [])"
  by (simp add: seen_with_def)

lemma record_hash_other:
  assumes "h \<noteq> k"
  shows "map_of (fst (record_hash p h st)) k = map_of (fst st) k"
    and "map_of (snd (record_hash p h st)) k = map_of (snd st) k"
  using assms
  by (cases st; cases "map_of (fst st) h";
      simp add: record_hash_def Let_def AList.update_conv')+

lemma record_hash_keys:
  "distinct (map fst (snd st)) \<Longrightarrow> distinct (map fst (snd (record_hash p h st)))"
  by (cases st; cases "map_of (fst st) h")
     (simp_all add: record_hash_def Let_def AList.distinct_update)

lemma fold_record_hash_keys:
  "distinct (map fst (snd st)) \<Longrightarrow>
     distinct (map fst (snd (fold (\<lambda>(p, h). record_hash p h) xs st)))"
proof (induction xs arbitrary: st)
  case Nil
  then show ?case by simp
next
  case (Cons x xs)
  obtain p h where x: "x = (p, h)" by (cases x)
  from Cons.prems have "distinct (map fst (snd (record_hash p h st)))"
    by (rule record_hash_keys)
  from Cons.IH[OF this] x show ?case by simp
qed

lemma fold_record_hash_seen:
  assumes "distinct (seen_with k xs)"
  shows "map_of (fst (fold (\<lambda>(p, h). record_hash p h) xs ([], []))) k =
           (case seen_with k xs of [] \<Rightarrow> None | a # rest \<Rightarrow> Some a) \<and>
         map_of (snd (fold (\<lambda>(p, h). record_hash p h) xs ([], []))) k =
           (case seen_with k xs of
              a # b # rest \<Rightarrow> Some (b # a # rest)
            | _ \<Rightarrow> None)"
  using assms
proof (induction xs rule: rev_induct)
  case Nil
  show ?case by (simp add: seen_with_def)
next
  case (snoc x xs)
  obtain p h where x: "x = (p, h)" by (cases x)
  let ?st = "fold (\<lambda>(p, h). record_hash p h) xs ([], [])"
  obtain hashes dups where st: "?st = (hashes, dups)" by (cases ?st)
  have step: "fold (\<lambda>(p, h). record_hash p h) (xs @ [x]) ([], []) = record_hash p h ?st"
    by (simp add: x)
  show ?case
  proof (cases "h = k")
    case False
    with snoc x have "distinct (seen_with k xs)"
      by (simp add: seen_with_snoc)
    with snoc.IH False show ?thesis
      unfolding step by (simp add: record_hash_other x seen_with_snoc)
  next
    case True
    with snoc.prems x have d: "distinct (seen_with k xs @ [p])"
      by (simp add: seen_with_snoc)
    then have IH: "map_of hashes k = (case seen_with k xs of [] \<Rightarrow> None | a # rest \<Rightarrow> Some a)"
      "map_of dups k = (case seen_with k xs of a # b # rest \<Rightarrow> Some (b # a # rest) | _ \<Rightarrow> None)"
      using snoc.IH st by auto
    have occ: "seen_with k (xs @ [x]) = seen_with k xs @ [p]"
      using True x by (simp add: seen_with_snoc)
    show ?thesis
    proof (cases "seen_with k xs")
      case Nil
      with IH True show ?thesis
        unfolding step occ st
        by (simp add: record_hash_def AList.update_conv')
    next
      case (Cons a rest)
      note outer = Cons
      show ?thesis
      proof (cases rest)
        case Nil
        with outer d have "a \<noteq> p" by auto
        with Nil outer IH True show ?thesis
          unfolding step occ st
          by (simp add: record_hash_def Let_def AList.update_conv')
      next
        case (Cons b rest')
        with outer IH True show ?thesis
          unfolding step occ st
          by (simp add: record_hash_def Let_def AList.update_conv')
      qed
    qed
  qed
qed

text \<open>
  Claim C10. In a tree whose hashed files have pairwise distinct paths, every returned
  group lists the second file met with that digest at index 0 and the first file met at
  index 1, the later ones behind them in order. The first file met is therefore among
  \<open>paths[1:]\<close>, which the delete and move actions work on, and the second is not.
\<close>

theorem find_duplicates_order:
  assumes "(k, v) \<in> set (find_duplicates md5 t io directory min_size file_extensions)"
    and "distinct (map fst (hashed_files md5 t io directory min_size file_extensions))"
  shows "\<exists>first second rest.
           seen_with k (hashed_files md5 t io directory min_size file_extensions) =
             first # second # rest \<and>
           v = second # first # rest \<and> v ! 0 = second \<and> v ! 1 = first \<and>
           first \<noteq> second \<and> drop 1 v = first # rest \<and> second \<notin> set (drop 1 v)"
proof -
  let ?xs = "hashed_files md5 t io directory min_size file_extensions"
  let ?dups = "snd (dup_scan md5 t io directory min_size file_extensions)"
  have d: "distinct (seen_with k ?xs)"
    unfolding seen_with_def using assms(2) by (rule distinct_map_filter)
  have "distinct (map fst ?dups)"
    unfolding dup_scan_eq by (rule fold_record_hash_keys) simp
  moreover from assms(1) have "(k, v) \<in> set ?dups" and len: "1 < length v"
    by (auto simp: find_duplicates_def)
  ultimately have "map_of ?dups k = Some v"
    by simp
  then have *: "(case seen_with k ?xs of a # b # rest \<Rightarrow> Some (b # a # rest) | _ \<Rightarrow> None) = Some v"
    using fold_record_hash_seen[OF d] by (simp add: dup_scan_eq)
  then obtain a b rest where occ: "seen_with k ?xs = a # b # rest" and v: "v = b # a # rest"
    by (auto split: list.splits)
  from d occ have "a \<noteq> b" "b \<notin> set rest" by auto
  with occ v show ?thesis by auto
qed

theorem find_duplicates_order_witness:
  "(''0123456789'', [''/d/b.txt'', ''/d/a.txt''])
     \<in> set (find_duplicates (\<lambda>b. b) dup_tree dup_io ''/d'' 0 None) \<and>
   distinct (map fst (hashed_files (\<lambda>b. b) dup_tree dup_io ''/d'' 0 None)) \<and>
   seen_with ''0123456789'' (hashed_files (\<lambda>b. b) dup_tree dup_io ''/d'' 0 None) =
     [''/d/a.txt'', ''/d/b.txt''] \<and>
   [''/d/b.txt'', ''/d/a.txt''] ! 0 = ''/d/b.txt'' \<and>
   [''/d/b.txt'', ''/d/a.txt''] ! 1 = ''/d/a.txt'' \<and>
   drop 1 [''/d/b.txt'', ''/d/a.txt''] = [''/d/a.txt'']"
proof -
  have h1: "(''0123456789'', [''/d/b.txt'', ''/d/a.txt''])
     \<in> set (find_duplicates (\<lambda>b. b) dup_tree dup_io ''/d'' 0 None)"
    by (simp add: dup_tree_duplicates)
  have h2: "distinct (map fst (hashed_files (\<lambda>b. b) dup_tree dup_io ''/d'' 0 None))"
    by (simp add: dup_tree_hashed)
  from find_duplicates_order[OF h1 h2] obtain first second rest where
    "seen_with ''0123456789'' (hashed_files (\<lambda>b. b) dup_tree dup_io ''/d'' 0 None) =
       first # second # rest"
    "[''/d/b.txt'', ''/d/a.txt''] = second # first # rest"
    by blast
  with h1 h2 show ?thesis by simp
qed


section \<open>Properties of the backup worker\<close>

lemma plain_os_sel:
  "os_relpath plain_os p start = (if p = start then ''.'' else drop (length start + 1) p)"
  "os_makedirs plain_os w p = (None, w)"
  "os_getsize plain_os w p = (case w p of None \<Rightarrow> Inl (no_such_file p) | Some b \<Rightarrow> Inr (length b))"
  "os_copy2 plain_os w src dst =
     (if src = dst then (Some (SameFileError src dst), w)
      else (case w src of None \<Rightarrow> (Some (no_such_file src), w) | Some b \<Rightarrow> (None, w(dst \<mapsto> b))))"
  "os_open_rb plain_os w p = (case w p of None \<Rightarrow> Inl (no_such_file p) | Some b \<Rightarrow> Inr b)"
  by (simp_all add: plain_os_def)

lemma three_files_config_sel:
  "source_dir three_files_config = ''/src''" "destination_root three_files_config = ''/dst''"
  "patterns three_files_config = [''*'']" "verify_hash three_files_config = True"
  by (simp_all add: three_files_config_def)


lemma plan_file_count:
  "pl_total_files st = length (pl_plan st) \<Longrightarrow>
     pl_total_files (plan_file os pats root dst_folder fname st) =
       length (pl_plan (plan_file os pats root dst_folder fname st))"
  by (simp add: plan_file_def Let_def)

lemma fold_plan_file_count:
  "pl_total_files st = length (pl_plan st) \<Longrightarrow>
     pl_total_files (fold (plan_file os pats root dst_folder) files st) =
       length (pl_plan (fold (plan_file os pats root dst_folder) files st))"
  by (induction files arbitrary: st) (simp_all add: plan_file_count)

lemma plan_dir_count:
  "pl_total_files st = length (pl_plan st) \<Longrightarrow>
     pl_total_files (plan_dir os cfg triple st) = length (pl_plan (plan_dir os cfg triple st))"
  unfolding plan_dir_def Let_def
  by (cases triple) (auto intro!: fold_plan_file_count split: prod.splits option.splits)

lemma fold_plan_dir_count:
  "pl_total_files st = length (pl_plan st) \<Longrightarrow>
     pl_total_files (fold (plan_dir os cfg) triples st) =
       length (pl_plan (fold (plan_dir os cfg) triples st))"
  by (induction triples arbitrary: st) (simp_all add: plan_dir_count)

lemma build_plan_count:
  "pl_total_files (build_plan os t cfg w) = length (pl_plan (build_plan os t cfg w))"
  unfolding build_plan_def by (rule fold_plan_dir_count) simp

text \<open>
  Claim C6. When planning yields no task, \<open>run\<close> ends with the terminal result
  \<open>(0, False, "No files found to backup in: ...")\<close> whatever the threads would have
  done: no progress event is emitted, and the file system is as planning left it (the
  mirrored directories), no task having been handed to the pool.
\<close>

theorem empty_plan_fails_at_once:
  assumes "pl_plan (build_plan os t cfg w) = []"
  shows "backup_run os md5 t cfg schedule w =
           \<lparr>br_world = pl_world (build_plan os t cfg w),
            br_log = pl_log (build_plan os t cfg w) @
                       [''No files found to backup in: '' @ source_dir cfg],
            br_events = [],
            br_finished = (0, False, ''No files found to backup in: '' @ source_dir cfg)\<rparr>"
  using assms build_plan_count[of os t cfg w] by (simp add: backup_run_def Let_def)

lemma empty_dir_scan: "fast_scan empty_dir_tree ''/src'' = [(''/src'', [], [])]"
  by code_simp

lemma empty_dir_plan:
  "build_plan plain_os empty_dir_tree three_files_config three_files_world =
     \<lparr>pl_world = three_files_world, pl_log = [start_line three_files_config], pl_plan = [],
      pl_total_size = 0, pl_total_files = 0\<rparr>"
  by (simp add: build_plan_def three_files_config_sel empty_dir_scan plan_dir_def plain_os_sel)

theorem empty_plan_fails_at_once_witness:
  "pl_plan (build_plan plain_os empty_dir_tree three_files_config three_files_world) = [] \<and>
   backup_run plain_os (\<lambda>b. b) empty_dir_tree three_files_config [Worker 0, Cancel]
       three_files_world =
     \<lparr>br_world = three_files_world,
      br_log = [start_line three_files_config, ''No files found to backup in: /src''],
      br_events = [],
      br_finished = (0, False, ''No files found to backup in: /src'')\<rparr>"
proof -
  have h: "pl_plan (build_plan plain_os empty_dir_tree three_files_config three_files_world) = []"
    by (simp add: empty_dir_plan)
  show ?thesis
    using empty_plan_fails_at_once[OF h, of "\<lambda>b. b" "[Worker 0, Cancel]"] h
    by (simp add: empty_dir_plan three_files_config_sel)
qed

lemma three_files_scan:
  "fast_scan three_files_tree ''/src'' =
     [(''/src'', [], [''/src/a.txt'', ''/src/b.txt'', ''/src/c.txt''])]"
  by code_simp

lemma three_files_plan:
  "pl_plan (build_plan plain_os three_files_tree three_files_config three_files_world) =
     [(''/src/a.txt'', ''/src/a.txt'', 100), (''/src/b.txt'', ''/src/b.txt'', 100),
      (''/src/c.txt'', ''/src/c.txt'', 100)]"
  by (simp add: build_plan_def three_files_config_def three_files_scan plan_dir_def plain_os_def
        plan_file_def pattern_selected_def join_def isabs_def three_files_world_def Let_def)

lemma three_files_build:
  "build_plan plain_os three_files_tree three_files_config three_files_world =
     \<lparr>pl_world = three_files_world, pl_log = [start_line three_files_config],
      pl_plan = [(''/src/a.txt'', ''/src/a.txt'', 100), (''/src/b.txt'', ''/src/b.txt'', 100),
                 (''/src/c.txt'', ''/src/c.txt'', 100)],
      pl_total_size = 300, pl_total_files = 3\<rparr>"
  by (simp add: build_plan_def three_files_config_def three_files_scan plan_dir_def plain_os_def
        plan_file_def pattern_selected_def join_def isabs_def three_files_world_def Let_def)

lemma drain3: "drain_schedule 3 =
   [Worker 0, Worker 0, Worker 0, Worker 0, Worker 1, Worker 1, Worker 1, Worker 1,
    Worker 2, Worker 2, Worker 2, Worker 2, Main, Main, Main]"
  by code_simp

lemma drain3_Suc: "drain_schedule (Suc (Suc (Suc 0))) =
   [Worker 0, Worker 0, Worker 0, Worker 0, Worker 1, Worker 1, Worker 1, Worker 1,
    Worker 2, Worker 2, Worker 2, Worker 2, Main, Main, Main]"
  using drain3 by (simp add: numeral_3_eq_3)

lemma workers8: "effective_workers three_files_config = 8"
  by (simp add: effective_workers_def three_files_config_def default_workers_def)

lemma dirname_src: "dirname ''/src/a.txt'' = ''/src''" "dirname ''/src/b.txt'' = ''/src''"
  "dirname ''/src/c.txt'' = ''/src''"
  by code_simp+

lemma dec3: "dec 0 = ''0''" "dec 3 = ''3''"
  by code_simp+

lemma three_files_pool:
  "pool_final plain_os (\<lambda>b. b) three_files_tree three_files_config [] three_files_world =
     \<lparr>cancelled = False, files_copied = 0, copied_size = 0, p_world = three_files_world,
      p_phases =
        [Finished (False, ''/src/a.txt'', ''/src/a.txt'', 100,
           Some (py_str (SameFileError ''/src/a.txt'' ''/src/a.txt''))),
         Finished (False, ''/src/b.txt'', ''/src/b.txt'', 100,
           Some (py_str (SameFileError ''/src/b.txt'' ''/src/b.txt''))),
         Finished (False, ''/src/c.txt'', ''/src/c.txt'', 100,
           Some (py_str (SameFileError ''/src/c.txt'' ''/src/c.txt'')))],
      p_completed =
        [(False, ''/src/a.txt'', ''/src/a.txt'', 100,
           Some (py_str (SameFileError ''/src/a.txt'' ''/src/a.txt''))),
         (False, ''/src/b.txt'', ''/src/b.txt'', 100,
           Some (py_str (SameFileError ''/src/b.txt'' ''/src/b.txt''))),
         (False, ''/src/c.txt'', ''/src/c.txt'', 100,
           Some (py_str (SameFileError ''/src/c.txt'' ''/src/c.txt'')))],
      p_taken = 3, p_stopped = False, p_errors = 3, p_events = [],
      p_log = [start_line three_files_config,
        ''ERROR copying /src/a.txt -> /src/a.txt: '' @ py_str (SameFileError ''/src/a.txt'' ''/src/a.txt''),
        ''ERROR copying /src/b.txt -> /src/b.txt: '' @ py_str (SameFileError ''/src/b.txt'' ''/src/b.txt''),
        ''ERROR copying /src/c.txt -> /src/c.txt: '' @ py_str (SameFileError ''/src/c.txt'' ''/src/c.txt'')]\<rparr>"
  by (simp add: pool_final_def three_files_build workers8 run_pool_def drain3_Suc
        pool_start_def step_def worker_step_def may_start_def finish_def copy_io_def
        copy_failed_def main_step_def dirname_src plain_os_sel three_files_config_sel
        del: py_str.simps)

text \<open>
  Claim C1 does not hold of the code. \<open>fast_scan\<close> yields full entry paths, and \<open>run\<close>
  joins them to the source and to the destination folder as if they were bare names: for
  an absolute source directory both joins return the entry path itself, every task copies
  a file onto itself and \<open>shutil.copy2\<close> raises \<open>SameFileError\<close>. On the scenario of the
  claim the run reports no file copied, three errors and no progress event.
\<close>

theorem three_files_run:
  "br_finished (backup_run plain_os (\<lambda>b. b) three_files_tree three_files_config []
      three_files_world) = (0, False, ''DONE. Files copied: 0; Errors: 3'') \<and>
   br_events (backup_run plain_os (\<lambda>b. b) three_files_tree three_files_config []
      three_files_world) = []"
  by (simp add: backup_run_def three_files_build workers8 three_files_pool completion_def
        summary_def dec3)


subsection \<open>Steps of the pool\<close>

lemma copy_failed_shape:
  "\<exists>err w' lg. copy_failed i (src, dst, fsize) e w s =
     finish i (False, src, dst, fsize, Some err) (s\<lparr>p_world := w', p_log := lg\<rparr>)"
  unfolding copy_failed_def by auto

lemma copy_io_shape:
  "(\<exists>err w lg. copy_io os md5 verify i (src, dst, fsize) s =
      finish i (False, src, dst, fsize, Some err) (s\<lparr>p_world := w, p_log := lg\<rparr>)) \<or>
   (\<exists>w. copy_io os md5 verify i (src, dst, fsize) s =
      s\<lparr>p_world := w, p_phases := (p_phases s)[i := Copied]\<rparr>)"
proof -
  obtain r1 w1 where m: "os_makedirs os (p_world s) (dirname dst) = (r1, w1)"
    by (cases "os_makedirs os (p_world s) (dirname dst)")
  obtain r2 w2 where c: "os_copy2 os w1 src dst = (r2, w2)"
    by (cases "os_copy2 os w1 src dst")
  show ?thesis
  proof (cases r1)
    case (Some e)
    with m show ?thesis
      using copy_failed_shape[of i src dst fsize e w1 s] by (simp add: copy_io_def)
  next
    case None
    note r1 = None
    show ?thesis
    proof (cases r2)
      case (Some e)
      with m c r1 show ?thesis
        using copy_failed_shape[of i src dst fsize e w2 s] by (simp add: copy_io_def)
    next
      case None
      note r2 = None
      show ?thesis
      proof (cases verify)
        case False
        with m c r1 r2 show ?thesis
          by (intro disjI2 exI[of _ w2]) (simp add: copy_io_def)
      next
        case True
        show ?thesis
        proof (cases "chunked_file_hash md5 (io_of os w2) src")
          case (Inl e)
          with m c r1 r2 True show ?thesis
            using copy_failed_shape[of i src dst fsize e w2 s] by (simp add: copy_io_def)
        next
          case (Inr hs)
          note hs = Inr
          show ?thesis
          proof (cases "chunked_file_hash md5 (io_of os w2) dst")
            case (Inl e)
            with m c r1 r2 True hs show ?thesis
              using copy_failed_shape[of i src dst fsize e w2 s] by (simp add: copy_io_def)
          next
            case (Inr hd)
            note hd = Inr
            show ?thesis
            proof (cases "hs = hd")
              case True
              with m c r1 r2 \<open>verify\<close> hs hd show ?thesis
                by (intro disjI2 exI[of _ w2]) (simp add: copy_io_def)
            next
              case False
              with m c r1 r2 \<open>verify\<close> hs hd show ?thesis
                by (intro disjI1 exI[of _ "''hash mismatch''"] exI[of _ w2]
                      exI[of _ "p_log s @ [''HASH MISMATCH '' @ src @ '' -> '' @ dst]"])
                   (simp add: copy_io_def)
            qed
          qed
        qed
      qed
    qed
  qed
qed

lemma worker_step_cases:
  obtains (idle) "worker_step os md5 verify workers plan i s = s"
    | (start) "i < length (p_phases s)" "p_phases s ! i = Queued" "may_start workers i s"
        "\<not> cancelled s"
        "worker_step os md5 verify workers plan i s = s\<lparr>p_phases := (p_phases s)[i := Started]\<rparr>"
    | (refuse) src dst fsize where "i < length (p_phases s)" "p_phases s ! i = Queued"
        "may_start workers i s" "cancelled s" "plan ! i = (src, dst, fsize)"
        "worker_step os md5 verify workers plan i s =
           finish i (False, src, dst, fsize, Some ''cancelled'') s"
    | (io_fail) src dst fsize err w lg where "i < length (p_phases s)" "p_phases s ! i = Started"
        "worker_step os md5 verify workers plan i s =
           finish i (False, src, dst, fsize, Some err) (s\<lparr>p_world := w, p_log := lg\<rparr>)"
    | (io_ok) w where "i < length (p_phases s)" "p_phases s ! i = Started"
        "worker_step os md5 verify workers plan i s =
           s\<lparr>p_world := w, p_phases := (p_phases s)[i := Copied]\<rparr>"
    | (count) src dst fsize where "i < length (p_phases s)" "p_phases s ! i = Copied"
        "plan ! i = (src, dst, fsize)"
        "worker_step os md5 verify workers plan i s =
           s\<lparr>files_copied := files_copied s + 1, copied_size := copied_size s + fsize,
             p_phases := (p_phases s)[i := Counted (files_copied s + 1) (copied_size s + fsize)]\<rparr>"
    | (emit) src dst fsize fp cs lg where "i < length (p_phases s)"
        "p_phases s ! i = Counted fp cs" "plan ! i = (src, dst, fsize)"
        "worker_step os md5 verify workers plan i s =
           finish i (True, src, dst, fsize, None)
             (s\<lparr>p_events := p_events s @ [(fp, basename src, fsize, cs)], p_log := lg\<rparr>)"
proof (cases "i < length plan \<and> i < length (p_phases s)")
  case False
  then have "worker_step os md5 verify workers plan i s = s"
    by (auto simp: worker_step_def)
  then show ?thesis by (rule idle)
next
  case True
  obtain src dst fsize where tk: "plan ! i = (src, dst, fsize)"
    by (cases "plan ! i")
  show ?thesis
  proof (cases "p_phases s ! i")
    case Queued
    show ?thesis
    proof (cases "may_start workers i s")
      case False
      with True tk Queued have "worker_step os md5 verify workers plan i s = s"
        by (simp add: worker_step_def)
      then show ?thesis by (rule idle)
    next
      case ms: True
      show ?thesis
      proof (cases "cancelled s")
        case True
        with \<open>i < length plan \<and> i < length (p_phases s)\<close> tk Queued ms show ?thesis
          by (intro refuse) (simp_all add: worker_step_def)
      next
        case False
        with True tk Queued ms show ?thesis
          by (intro start) (simp_all add: worker_step_def)
      qed
    qed
  next
    case Started
    have ws: "worker_step os md5 verify workers plan i s = copy_io os md5 verify i (src, dst, fsize) s"
      using True tk Started by (simp add: worker_step_def)
    show ?thesis
      using copy_io_shape[of os md5 verify i src dst fsize s]
    proof (elim disjE exE)
      fix err w lg
      assume "copy_io os md5 verify i (src, dst, fsize) s =
        finish i (False, src, dst, fsize, Some err) (s\<lparr>p_world := w, p_log := lg\<rparr>)"
      with True Started ws show ?thesis
        by (intro io_fail) simp_all
    next
      fix w
      assume "copy_io os md5 verify i (src, dst, fsize) s =
        s\<lparr>p_world := w, p_phases := (p_phases s)[i := Copied]\<rparr>"
      with True Started ws show ?thesis
        by (intro io_ok) simp_all
    qed
  next
    case Copied
    with True tk show ?thesis
      by (intro count) (simp_all add: worker_step_def)
  next
    case (Counted fp cs)
    with True tk show ?thesis
      by (intro emit) (simp_all add: worker_step_def)
  next
    case (Finished out)
    with True tk have "worker_step os md5 verify workers plan i s = s"
      by (simp add: worker_step_def)
    then show ?thesis by (rule idle)
  qed
qed

lemma fold_invariant:
  assumes "\<And>a s. P s \<Longrightarrow> P (f a s)" and "P s"
  shows "P (fold f xs s)"
  using assms(2) by (induction xs arbitrary: s) (auto intro: assms(1))

lemma filter_update_count:
  "i < length xs \<Longrightarrow>
     length (filter P (xs[i := y])) + (if P (xs ! i) then 1 else 0) =
     length (filter P xs) + (if P y then 1 else 0)"
proof (induction xs arbitrary: i)
  case Nil
  then show ?case by simp
next
  case (Cons x xs)
  then show ?case by (cases i) auto
qed

lemma filter_count_pos: "j < length xs \<Longrightarrow> P (xs ! j) \<Longrightarrow> 0 < length (filter P xs)"
  by (auto simp: filter_empty_conv)

lemma filter_count_two_ordered:
  assumes "i < j" "j < length xs" "P (xs ! i)" "P (xs ! j)"
  shows "2 \<le> length (filter P xs)"
proof -
  have "length (filter P xs) =
      length (filter P (take j xs)) + length (filter P (drop j xs))"
    by (metis append_take_drop_id filter_append length_append)
  moreover have "0 < length (filter P (take j xs))"
    using assms by (intro filter_count_pos[of i]) simp_all
  moreover have "0 < length (filter P (drop j xs))"
    using assms by (intro filter_count_pos[of 0]) simp_all
  ultimately show ?thesis by linarith
qed

lemma filter_count_two:
  assumes "i < length xs" "j < length xs" "i \<noteq> j" "P (xs ! i)" "P (xs ! j)"
  shows "2 \<le> length (filter P xs)"
  using assms filter_count_two_ordered[of i j xs P] filter_count_two_ordered[of j i xs P]
  by (cases "i < j") auto

subsection \<open>What a step keeps\<close>

lemma step_phases_length:
  "length (p_phases (step os md5 verify workers plan a s)) = length (p_phases s)"
proof (cases a)
  case (Worker i)
  show ?thesis
    unfolding Worker step_def action.case
    by (cases rule: worker_step_cases[of os md5 verify workers plan i s])
       (simp_all add: finish_def)
qed (simp_all add: step_def main_step_def split: prod.splits)

lemma step_cancelled:
  "cancelled s \<Longrightarrow> cancelled (step os md5 verify workers plan a s)"
proof (cases a)
  case (Worker i)
  assume "cancelled s"
  then show ?thesis
    unfolding Worker step_def action.case
    by (cases rule: worker_step_cases[of os md5 verify workers plan i s])
       (simp_all add: finish_def)
qed (simp_all add: step_def main_step_def split: prod.splits)

lemma step_files_copied:
  "files_copied s \<le> files_copied (step os md5 verify workers plan a s)"
proof (cases a)
  case (Worker i)
  show ?thesis
    unfolding Worker step_def action.case
    by (cases rule: worker_step_cases[of os md5 verify workers plan i s])
       (simp_all add: finish_def)
qed (simp_all add: step_def main_step_def split: prod.splits)

lemma step_counted:
  assumes "files_copied s = length (filter counted (p_phases s))"
  shows "files_copied (step os md5 verify workers plan a s) =
           length (filter counted (p_phases (step os md5 verify workers plan a s)))"
proof (cases a)
  case (Worker i)
  have "files_copied (worker_step os md5 verify workers plan i s) =
          length (filter counted (p_phases (worker_step os md5 verify workers plan i s)))"
  proof (cases rule: worker_step_cases[of os md5 verify workers plan i s])
    case idle
    with assms show ?thesis by simp
  next
    case start
    with assms filter_update_count[of i "p_phases s" counted Started] show ?thesis by simp
  next
    case (refuse src dst fsize)
    with assms filter_update_count[of i "p_phases s" counted
        "Finished (False, src, dst, fsize, Some ''cancelled'')"]
    show ?thesis by (simp add: finish_def)
  next
    case (io_fail src dst fsize err w lg)
    with assms filter_update_count[of i "p_phases s" counted
        "Finished (False, src, dst, fsize, Some err)"]
    show ?thesis by (simp add: finish_def)
  next
    case (io_ok w)
    with assms filter_update_count[of i "p_phases s" counted Copied] show ?thesis by simp
  next
    case (count src dst fsize)
    with assms filter_update_count[of i "p_phases s" counted
        "Counted (files_copied s + 1) (copied_size s + fsize)"]
    show ?thesis by simp
  next
    case (emit src dst fsize fp cs lg)
    with assms filter_update_count[of i "p_phases s" counted
        "Finished (True, src, dst, fsize, None)"]
    show ?thesis by (simp add: finish_def)
  qed
  then show ?thesis by (simp add: Worker step_def)
next
  case Cancel
  with assms show ?thesis by (simp add: step_def)
next
  case Main
  with assms show ?thesis by (simp add: step_def main_step_def split: prod.splits)
qed

lemma run_cancelled:
  "cancelled s \<Longrightarrow> cancelled (fold (step os md5 verify workers plan) schedule s)"
  by (rule fold_invariant[where P = cancelled]) (rule step_cancelled)

lemma run_files_copied:
  "files_copied s \<le> files_copied (fold (step os md5 verify workers plan) schedule s)"
proof (induction schedule arbitrary: s)
  case Nil
  show ?case by simp
next
  case (Cons a schedule)
  have "files_copied s \<le> files_copied (step os md5 verify workers plan a s)"
    by (rule step_files_copied)
  also have "\<dots> \<le> files_copied (fold (step os md5 verify workers plan) schedule
                        (step os md5 verify workers plan a s))"
    by (rule Cons.IH)
  finally show ?case by simp
qed

lemma run_counted:
  assumes "files_copied s = length (filter counted (p_phases s))"
  shows "files_copied (fold (step os md5 verify workers plan) schedule s) \<le> length (p_phases s)"
proof -
  let ?I = "\<lambda>u. files_copied u = length (filter counted (p_phases u)) \<and>
                  length (p_phases u) = length (p_phases s)"
  have "?I (fold (step os md5 verify workers plan) schedule s)"
    by (rule fold_invariant[where P = ?I]) (auto simp: step_counted step_phases_length assms)
  then have "files_copied (fold (step os md5 verify workers plan) schedule s) =
      length (filter counted (p_phases (fold (step os md5 verify workers plan) schedule s)))"
    and "length (p_phases (fold (step os md5 verify workers plan) schedule s)) = length (p_phases s)"
    by auto
  then show ?thesis
    using length_filter_le[of counted "p_phases (fold (step os md5 verify workers plan) schedule s)"]
    by simp
qed

lemma nested_scan:
  "fast_scan nested_tree ''s'' =
     [(''s'', [''s/s''], [''s/a'', ''s/b'']), (''s/s'', [], [''s/s/a'', ''s/s/b''])]"
  by code_simp

lemma nested_config_sel:
  "source_dir nested_config = ''s''" "destination_root nested_config = ''d''"
  "patterns nested_config = [''*'']" "verify_hash nested_config = True"
  by (simp_all add: nested_config_def)

lemma nested_workers: "effective_workers nested_config = 8"
  by (simp add: effective_workers_def nested_config_def default_workers_def)

lemma nested_build:
  "build_plan plain_os nested_tree nested_config nested_world =
     \<lparr>pl_world = nested_world, pl_log = [start_line nested_config],
      pl_plan = [(''s/s/a'', ''d/./s/a'', 3), (''s/s/b'', ''d/./s/b'', 5),
                 (''s/s/s/s/a'', ''d/s/s/s/a'', 0), (''s/s/s/s/b'', ''d/s/s/s/b'', 0)],
      pl_total_size = 8, pl_total_files = 4\<rparr>"
  by (simp add: build_plan_def nested_config_sel nested_scan plan_dir_def plain_os_sel
        plan_file_def pattern_selected_def join_def isabs_def nested_world_def Let_def)

lemma pool_start_counted:
  "files_copied (pool_start w lg plan) = length (filter counted (p_phases (pool_start w lg plan)))"
  by (simp add: pool_start_def)



subsection \<open>The run over the nested tree, step by step\<close>

lemma nested_dirname:
  "dirname ''d/./s/a'' = ''d/./s''" "dirname ''d/./s/b'' = ''d/./s''"
  "dirname ''d/s/s/s/a'' = ''d/s/s/s''" "dirname ''d/s/s/s/b'' = ''d/s/s/s''"
  by code_simp+

lemma nested_basename: "basename ''s/s/a'' = ''a''" "basename ''s/s/b'' = ''b''"
  by code_simp+

lemma io_of_sel:
  "io_open_rb (io_of os w) = os_open_rb os w" "io_getsize (io_of os w) = os_getsize os w"
  by (simp_all add: io_of_def)

lemma nested_world_at:
  "nested_world ''s/s/a'' = Some ''aaa''" "nested_world ''s/s/b'' = Some ''bbbbb''"
  "nested_world ''s/s/s/s/a'' = None" "nested_world ''s/s/s/s/b'' = None"
  by (simp_all add: nested_world_def)


lemma nested_pool_final:
  "pool_final plain_os (\<lambda>b. b) nested_tree nested_config schedule nested_world =
     fold (step plain_os (\<lambda>b. b) True 8 nested_plan) (schedule @ drain_schedule (length nested_plan))
       (pool_start nested_world [start_line nested_config] nested_plan)"
  by (simp add: pool_final_def run_pool_def nested_build nested_workers nested_config_sel
        nested_plan_def Let_def)

lemma nested_drain:
  "drain_schedule (length nested_plan) =
     [Worker 0, Worker 0, Worker 0, Worker 0, Worker 1, Worker 1, Worker 1, Worker 1,
      Worker 2, Worker 2, Worker 2, Worker 2, Worker 3, Worker 3, Worker 3, Worker 3,
      Main, Main, Main, Main]"
proof -
  have "length nested_plan = 4"
    by (simp add: nested_plan_def)
  moreover have "drain_schedule 4 =
     [Worker 0, Worker 0, Worker 0, Worker 0, Worker 1, Worker 1, Worker 1, Worker 1,
      Worker 2, Worker 2, Worker 2, Worker 2, Worker 3, Worker 3, Worker 3, Worker 3,
      Main, Main, Main, Main]"
    by code_simp
  ultimately show ?thesis by simp
qed

lemma nested_start:
  "pool_start nested_world lg nested_plan =
   \<lparr>cancelled = False, files_copied = 0, copied_size = 0, p_world = nested_world,
      p_phases = [Queued, Queued, Queued, Queued], p_completed = [], p_taken = 0,
      p_stopped = False, p_errors = 0, p_events = [], p_log = lg\<rparr>"
  by (simp add: pool_start_def nested_plan_def)

lemmas nested_eval =
  step_def worker_step_def may_start_def nested_plan_def copy_io_def copy_failed_def
  plain_os_sel nested_dirname nested_basename nested_world_at chunked_file_hash_eq io_of_sel
  finish_def main_step_def



subsection \<open>Cancellation\<close>








lemma run_phases_length:
  "length (p_phases (fold (step os md5 verify workers plan) schedule s)) = length (p_phases s)"
  by (rule fold_invariant[where P = "\<lambda>u. length (p_phases u) = length (p_phases s)"])
     (simp_all add: step_phases_length)



lemma run_counted_eq:
  assumes "files_copied s = length (filter counted (p_phases s))"
  shows "files_copied (fold (step os md5 verify workers plan) schedule s) =
           length (filter counted (p_phases (fold (step os md5 verify workers plan) schedule s)))"
  by (rule fold_invariant[where P = "\<lambda>u. files_copied u = length (filter counted (p_phases u))"])
     (simp_all add: step_counted assms)












subsection \<open>Order of the progress events\<close>

lemma counted_update_other:
  assumes "\<forall>j < length xs. \<forall>fp cs. xs ! j = Counted fp cs \<longrightarrow> Q fp cs"
    and "\<And>fp cs. ph \<noteq> Counted fp cs"
  shows "\<forall>j < length xs. \<forall>fp cs. xs[i := ph] ! j = Counted fp cs \<longrightarrow> Q fp cs"
proof (intro allI impI)
  fix j fp cs
  assume j: "j < length xs" and c: "xs[i := ph] ! j = Counted fp cs"
  show "Q fp cs"
  proof (cases "j = i")
    case True
    with j c assms(2) show ?thesis by simp
  next
    case False
    with j c assms(1) show ?thesis by simp
  qed
qed

lemma one_at_a_time_worker:
  assumes inv: "one_at_a_time s"
  shows "one_at_a_time (worker_step os md5 verify 1 plan i s)"
proof (cases rule: worker_step_cases[of os md5 verify 1 plan i s])
  case idle
  with inv show ?thesis by simp
next
  case start
  from start(3) have "length (filter in_flight (p_phases s)) = 0"
    by (simp add: may_start_def)
  with filter_update_count[OF start(1), of in_flight Started] start(2)
  have "length (filter in_flight ((p_phases s)[i := Started])) \<le> 1"
    by simp
  moreover have "\<forall>j < length (p_phases s). \<forall>fp cs.
      (p_phases s)[i := Started] ! j = Counted fp cs \<longrightarrow>
        fp = files_copied s \<and> cs = copied_size s"
    using inv by (intro counted_update_other) (simp_all add: one_at_a_time_def)
  ultimately show ?thesis
    using inv start(5) by (simp add: one_at_a_time_def)
next
  case (refuse src dst fsize)
  let ?ph = "Finished (False, src, dst, fsize, Some ''cancelled'')"
  from filter_update_count[OF refuse(1), of in_flight ?ph] refuse(2) inv
  have "length (filter in_flight ((p_phases s)[i := ?ph])) \<le> 1"
    by (simp add: one_at_a_time_def)
  moreover have "\<forall>j < length (p_phases s). \<forall>fp cs.
      (p_phases s)[i := ?ph] ! j = Counted fp cs \<longrightarrow>
        fp = files_copied s \<and> cs = copied_size s"
    using inv by (intro counted_update_other) (simp_all add: one_at_a_time_def)
  ultimately show ?thesis
    using inv refuse(6) by (simp add: one_at_a_time_def finish_def)
next
  case (io_fail src dst fsize err w lg)
  let ?ph = "Finished (False, src, dst, fsize, Some err)"
  from filter_update_count[OF io_fail(1), of in_flight ?ph] io_fail(2) inv
  have "length (filter in_flight ((p_phases s)[i := ?ph])) \<le> 1"
    by (simp add: one_at_a_time_def)
  moreover have "\<forall>j < length (p_phases s). \<forall>fp cs.
      (p_phases s)[i := ?ph] ! j = Counted fp cs \<longrightarrow>
        fp = files_copied s \<and> cs = copied_size s"
    using inv by (intro counted_update_other) (simp_all add: one_at_a_time_def)
  ultimately show ?thesis
    using inv io_fail(3) by (simp add: one_at_a_time_def finish_def)
next
  case (io_ok w)
  from filter_update_count[OF io_ok(1), of in_flight Copied] io_ok(2) inv
  have "length (filter in_flight ((p_phases s)[i := Copied])) \<le> 1"
    by (simp add: one_at_a_time_def)
  moreover have "\<forall>j < length (p_phases s). \<forall>fp cs.
      (p_phases s)[i := Copied] ! j = Counted fp cs \<longrightarrow>
        fp = files_copied s \<and> cs = copied_size s"
    using inv by (intro counted_update_other) (simp_all add: one_at_a_time_def)
  ultimately show ?thesis
    using inv io_ok(3) by (simp add: one_at_a_time_def)
next
  case (count src dst fsize)
  let ?ph = "Counted (files_copied s + 1) (copied_size s + fsize)"
  from filter_update_count[OF count(1), of in_flight ?ph] count(2) inv
  have "length (filter in_flight ((p_phases s)[i := ?ph])) \<le> 1"
    by (simp add: one_at_a_time_def)
  moreover have "\<forall>j < length (p_phases s). \<forall>fp cs.
      (p_phases s)[i := ?ph] ! j = Counted fp cs \<longrightarrow>
        fp = files_copied s + 1 \<and> cs = copied_size s + fsize"
  proof (intro allI impI)
    fix j fp cs
    assume j: "j < length (p_phases s)" and c: "(p_phases s)[i := ?ph] ! j = Counted fp cs"
    show "fp = files_copied s + 1 \<and> cs = copied_size s + fsize"
    proof (cases "j = i")
      case True
      with c count(1) show ?thesis by simp
    next
      case False
      with c have "p_phases s ! j = Counted fp cs" by simp
      then have "in_flight (p_phases s ! j)" by simp
      moreover have "in_flight (p_phases s ! i)" using count(2) by simp
      ultimately have "2 \<le> length (filter in_flight (p_phases s))"
        using filter_count_two[of i "p_phases s" j in_flight] count(1) j False by auto
      with inv show ?thesis by (simp add: one_at_a_time_def)
    qed
  qed
  moreover have "\<forall>ev \<in> set (p_events s).
      event_files ev \<le> files_copied s + 1 \<and> event_bytes ev \<le> copied_size s + fsize"
    using inv by (auto simp: one_at_a_time_def intro: le_SucI trans_le_add1)
  ultimately show ?thesis
    using inv count(4) by (simp add: one_at_a_time_def)
next
  case (emit src dst fsize fp cs lg)
  let ?ph = "Finished (True, src, dst, fsize, None)"
  from inv emit(1,2) have now: "fp = files_copied s" "cs = copied_size s"
    by (auto simp: one_at_a_time_def)
  from filter_update_count[OF emit(1), of in_flight ?ph] emit(2) inv
  have "length (filter in_flight ((p_phases s)[i := ?ph])) \<le> 1"
    by (simp add: one_at_a_time_def)
  moreover have "\<forall>j < length (p_phases s). \<forall>fp cs.
      (p_phases s)[i := ?ph] ! j = Counted fp cs \<longrightarrow>
        fp = files_copied s \<and> cs = copied_size s"
    using inv by (intro counted_update_other) (simp_all add: one_at_a_time_def)
  moreover have "sorted (map event_files (p_events s @ [(fp, basename src, fsize, cs)]))"
    "sorted (map event_bytes (p_events s @ [(fp, basename src, fsize, cs)]))"
    using inv now by (auto simp: one_at_a_time_def sorted_append event_files_def event_bytes_def)
  moreover have "\<forall>ev \<in> set (p_events s @ [(fp, basename src, fsize, cs)]).
      event_files ev \<le> files_copied s \<and> event_bytes ev \<le> copied_size s"
    using inv now by (auto simp: one_at_a_time_def event_files_def event_bytes_def)
  ultimately show ?thesis
    using emit(4) by (simp add: one_at_a_time_def finish_def)
qed

lemma one_at_a_time_step:
  "one_at_a_time s \<Longrightarrow> one_at_a_time (step os md5 verify 1 plan a s)"
proof (cases a)
  case (Worker i)
  assume "one_at_a_time s"
  then show ?thesis
    unfolding Worker step_def action.case by (rule one_at_a_time_worker)
next
  case Cancel
  assume "one_at_a_time s"
  then show ?thesis by (simp add: Cancel step_def one_at_a_time_def)
next
  case Main
  assume "one_at_a_time s"
  then show ?thesis
    by (simp add: Main step_def main_step_def one_at_a_time_def split: prod.splits)
qed

lemma one_at_a_time_start: "one_at_a_time (pool_start w lg plan)"
  by (simp add: one_at_a_time_def pool_start_def)


lemma held_member:
  "p \<in> set (concat (map held xs)) \<longleftrightarrow> (\<exists>j < length xs. xs ! j = Counted (fst p) (snd p))"
proof
  assume "p \<in> set (concat (map held xs))"
  then obtain ph where ph: "ph \<in> set xs" "p \<in> set (held ph)" by auto
  from ph(2) have "ph = Counted (fst p) (snd p)" by (cases ph) auto
  with ph(1) show "\<exists>j < length xs. xs ! j = Counted (fst p) (snd p)"
    by (auto simp: in_set_conv_nth)
next
  assume "\<exists>j < length xs. xs ! j = Counted (fst p) (snd p)"
  then obtain j where "j < length xs" "xs ! j = Counted (fst p) (snd p)" by blast
  then have "Counted (fst p) (snd p) \<in> set xs" by (metis nth_mem)
  then show "p \<in> set (concat (map held xs))" by force
qed

lemma held_update_other:
  assumes "\<And>fp cs. ph \<noteq> Counted fp cs"
  shows "set (concat (map held (xs[i := ph]))) \<subseteq> set (concat (map held xs))"
proof
  fix p
  assume "p \<in> set (concat (map held (xs[i := ph])))"
  then obtain j where j: "j < length xs" "xs[i := ph] ! j = Counted (fst p) (snd p)"
    unfolding held_member by auto
  with assms have "j \<noteq> i" by (cases "j = i") auto
  with j have "xs ! j = Counted (fst p) (snd p)" by simp
  with j(1) show "p \<in> set (concat (map held xs))"
    unfolding held_member by blast
qed

lemma held_update_counted:
  "set (concat (map held (xs[i := Counted a b]))) \<subseteq> insert (a, b) (set (concat (map held xs)))"
proof
  fix p
  assume "p \<in> set (concat (map held (xs[i := Counted a b])))"
  then obtain j where j: "j < length xs" "xs[i := Counted a b] ! j = Counted (fst p) (snd p)"
    unfolding held_member by auto
  show "p \<in> insert (a, b) (set (concat (map held xs)))"
  proof (cases "j = i")
    case True
    with j have "p = (a, b)" by (cases p) simp
    then show ?thesis by simp
  next
    case False
    with j have "xs ! j = Counted (fst p) (snd p)" by simp
    with j(1) have "p \<in> set (concat (map held xs))"
      unfolding held_member by blast
    then show ?thesis by simp
  qed
qed

lemma readings_ok_subset:
  assumes "readings_ok s" "readings s' \<subseteq> readings s"
    "files_copied s' = files_copied s" "copied_size s' = copied_size s"
  shows "readings_ok s'"
proof -
  have bound: "\<forall>p \<in> readings s'. fst p \<le> files_copied s' \<and> snd p \<le> copied_size s'"
  proof (rule ballI)
    fix p assume "p \<in> readings s'"
    with assms(2) have "p \<in> readings s" by blast
    with assms(1) have "fst p \<le> files_copied s \<and> snd p \<le> copied_size s"
      unfolding readings_ok_def by blast
    with assms(3,4) show "fst p \<le> files_copied s' \<and> snd p \<le> copied_size s'" by simp
  qed
  have chain: "\<forall>p \<in> readings s'. \<forall>q \<in> readings s'.
      (fst p < fst q \<longrightarrow> snd p \<le> snd q) \<and> (fst p = fst q \<longrightarrow> snd p = snd q)"
  proof (intro ballI)
    fix p q assume "p \<in> readings s'" "q \<in> readings s'"
    with assms(2) have "p \<in> readings s" "q \<in> readings s" by blast+
    with assms(1) show "(fst p < fst q \<longrightarrow> snd p \<le> snd q) \<and> (fst p = fst q \<longrightarrow> snd p = snd q)"
      unfolding readings_ok_def by blast
  qed
  from bound chain show ?thesis
    unfolding readings_ok_def by (rule conjI)
qed

lemma readings_ok_same:
  assumes "readings_ok s" "p_events s' = p_events s" "p_phases s' = p_phases s"
    "files_copied s' = files_copied s" "copied_size s' = copied_size s"
  shows "readings_ok s'"
proof (rule readings_ok_subset[OF assms(1)])
  show "readings s' \<subseteq> readings s"
    unfolding readings_def assms(2,3) by (rule subset_refl)
qed (rule assms(4), rule assms(5))

lemma readings_subset_update:
  assumes "p_events s' = p_events s" "p_phases s' = (p_phases s)[i := ph]"
    and "\<And>fp cs. ph \<noteq> Counted fp cs"
  shows "readings s' \<subseteq> readings s"
proof -
  have "set (concat (map held ((p_phases s)[i := ph]))) \<subseteq> set (concat (map held (p_phases s)))"
    using assms(3) by (rule held_update_other)
  then show ?thesis
    unfolding readings_def assms(1,2) by blast
qed

lemma readings_subset_emit:
  assumes "p_events s' = p_events s @ [ev]" "p_phases s' = (p_phases s)[i := ph]"
    and "\<And>fp cs. ph \<noteq> Counted fp cs"
    and "(event_files ev, event_bytes ev) \<in> set (concat (map held (p_phases s)))"
  shows "readings s' \<subseteq> readings s"
proof -
  have "set (concat (map held ((p_phases s)[i := ph]))) \<subseteq> set (concat (map held (p_phases s)))"
    using assms(3) by (rule held_update_other)
  with assms(4) show ?thesis
    unfolding readings_def assms(1,2) by auto
qed

lemma readings_ok_worker:
  assumes inv: "readings_ok s"
  shows "readings_ok (worker_step os md5 verify workers plan i s)"
proof (cases rule: worker_step_cases[of os md5 verify workers plan i s])
  case idle
  with inv show ?thesis by simp
next
  case start
  show ?thesis
    unfolding start(5)
    by (rule readings_ok_subset[OF inv], rule readings_subset_update[where i = i and ph = Started])
       simp_all
next
  case (refuse src dst fsize)
  show ?thesis
    unfolding refuse(6)
    by (rule readings_ok_subset[OF inv],
        rule readings_subset_update[where i = i and
          ph = "Finished (False, src, dst, fsize, Some ''cancelled'')"])
       (simp_all add: finish_def)
next
  case (io_fail src dst fsize err w lg)
  show ?thesis
    unfolding io_fail(3)
    by (rule readings_ok_subset[OF inv],
        rule readings_subset_update[where i = i and
          ph = "Finished (False, src, dst, fsize, Some err)"])
       (simp_all add: finish_def)
next
  case (io_ok w)
  show ?thesis
    unfolding io_ok(3)
    by (rule readings_ok_subset[OF inv], rule readings_subset_update[where i = i and ph = Copied])
       simp_all
next
  case (count src dst fsize)
  let ?a = "files_copied s + 1" and ?b = "copied_size s + fsize"
  let ?s' = "s\<lparr>files_copied := ?a, copied_size := ?b,
               p_phases := (p_phases s)[i := Counted ?a ?b]\<rparr>"
  have "set (concat (map held ((p_phases s)[i := Counted ?a ?b]))) \<subseteq>
      insert (?a, ?b) (set (concat (map held (p_phases s))))"
    by (rule held_update_counted)
  then have sub: "readings ?s' \<subseteq> insert (?a, ?b) (readings s)"
    unfolding readings_def by auto
  have old: "\<forall>p \<in> readings s. fst p \<le> files_copied s \<and> snd p \<le> copied_size s"
    using inv unfolding readings_ok_def by blast
  have chain: "\<forall>p \<in> readings s. \<forall>q \<in> readings s.
         (fst p < fst q \<longrightarrow> snd p \<le> snd q) \<and> (fst p = fst q \<longrightarrow> snd p = snd q)"
    using inv unfolding readings_ok_def by blast
  have bound: "\<forall>p \<in> readings ?s'. fst p \<le> files_copied ?s' \<and> snd p \<le> copied_size ?s'"
  proof (rule ballI)
    fix p assume "p \<in> readings ?s'"
    with sub have "p = (?a, ?b) \<or> p \<in> readings s" by auto
    then show "fst p \<le> files_copied ?s' \<and> snd p \<le> copied_size ?s'"
    proof
      assume "p = (?a, ?b)"
      then show ?thesis by simp
    next
      assume "p \<in> readings s"
      with old have "fst p \<le> files_copied s \<and> snd p \<le> copied_size s" by blast
      then show ?thesis by simp
    qed
  qed
  have chain': "\<forall>p \<in> readings ?s'. \<forall>q \<in> readings ?s'.
      (fst p < fst q \<longrightarrow> snd p \<le> snd q) \<and> (fst p = fst q \<longrightarrow> snd p = snd q)"
  proof (intro ballI)
    fix p q assume "p \<in> readings ?s'" "q \<in> readings ?s'"
    with sub have p: "p = (?a, ?b) \<or> p \<in> readings s" and q: "q = (?a, ?b) \<or> q \<in> readings s"
      by auto
    have lt: "fst r \<le> files_copied s \<and> snd r \<le> copied_size s" if "r \<in> readings s" for r
      using old that by blast
    show "(fst p < fst q \<longrightarrow> snd p \<le> snd q) \<and> (fst p = fst q \<longrightarrow> snd p = snd q)"
    proof (cases "p = (?a, ?b)")
      case pn: True
      show ?thesis
      proof (cases "q = (?a, ?b)")
        case True
        with pn show ?thesis by simp
      next
        case False
        with q have "q \<in> readings s" by simp
        from lt[OF this] pn show ?thesis by simp
      qed
    next
      case False
      with p have po: "p \<in> readings s" by simp
      show ?thesis
      proof (cases "q = (?a, ?b)")
        case True
        with lt[OF po] show ?thesis by simp
      next
        case False
        with q have "q \<in> readings s" by simp
        with po chain show ?thesis by blast
      qed
    qed
  qed
  from bound chain' have "readings_ok ?s'"
    unfolding readings_ok_def by (rule conjI)
  then show ?thesis by (simp add: count(4))
next
  case (emit src dst fsize fp cs lg)
  have "(fp, cs) \<in> set (concat (map held (p_phases s)))"
    unfolding held_member using emit(1,2) by auto
  then show ?thesis
    unfolding emit(4)
    by (intro readings_ok_subset[OF inv]
          readings_subset_emit[where i = i and ph = "Finished (True, src, dst, fsize, None)"
            and ev = "(fp, basename src, fsize, cs)"])
       (simp_all add: finish_def event_files_def event_bytes_def)
qed

lemma readings_ok_step:
  assumes "readings_ok s"
  shows "readings_ok (step os md5 verify workers plan a s)"
proof (cases a)
  case (Worker i)
  show ?thesis
    unfolding Worker step_def action.case using assms by (rule readings_ok_worker)
next
  case Cancel
  show ?thesis
    unfolding Cancel step_def action.case
    by (rule readings_ok_same[OF assms]) simp_all
next
  case Main
  show ?thesis
    unfolding Main step_def action.case
    by (rule readings_ok_same[OF assms]) (simp_all add: main_step_def split: prod.splits)
qed

lemma held_queued: "concat (map held (replicate n Queued)) = []"
  by (induction n) simp_all

lemma readings_ok_start: "readings_ok (pool_start w lg plan)"
proof -
  have "readings (pool_start w lg plan) = {}"
    by (simp add: readings_def pool_start_def held_queued)
  then show ?thesis
    unfolding readings_ok_def by simp
qed

lemma step_copied_size:
  "copied_size s \<le> copied_size (step os md5 verify workers plan a s)"
proof (cases a)
  case (Worker i)
  show ?thesis
    unfolding Worker step_def action.case
    by (cases rule: worker_step_cases[of os md5 verify workers plan i s])
       (simp_all add: finish_def)
qed (simp_all add: step_def main_step_def split: prod.splits)

lemma run_copied_size:
  "copied_size s \<le> copied_size (fold (step os md5 verify workers plan) schedule s)"
proof (induction schedule arbitrary: s)
  case Nil
  show ?case by simp
next
  case (Cons a schedule)
  have "copied_size s \<le> copied_size (step os md5 verify workers plan a s)"
    by (rule step_copied_size)
  also have "\<dots> \<le> copied_size (fold (step os md5 verify workers plan) schedule
                        (step os md5 verify workers plan a s))"
    by (rule Cons.IH)
  finally show ?case by simp
qed

lemma single_worker_sorted:
  assumes "effective_workers cfg = 1"
  shows "sorted (map event_files (br_events (backup_run os md5 t cfg schedule w))) \<and>
         sorted (map event_bytes (br_events (backup_run os md5 t cfg schedule w)))"
proof (cases "pl_total_files (build_plan os t cfg w) = 0")
  case True
  then show ?thesis by (simp add: backup_run_def Let_def)
next
  case False
  let ?pl = "build_plan os t cfg w"
  let ?fin = "pool_final os md5 t cfg schedule w"
  have "one_at_a_time ?fin"
    unfolding pool_final_def Let_def run_pool_def assms
    by (rule fold_invariant[where P = one_at_a_time])
       (simp_all add: one_at_a_time_step one_at_a_time_start)
  moreover have "br_events (backup_run os md5 t cfg schedule w) = p_events ?fin"
    using False assms by (simp add: backup_run_def Let_def completion_def)
  ultimately show ?thesis by (simp add: one_at_a_time_def)
qed

lemma nested_overtaking_final:
  "p_events (pool_final plain_os (\<lambda>b. b) nested_tree nested_config overtaking nested_world) =
     [(2, ''b'', 5, 8), (1, ''a'', 3, 3)]"
  unfolding nested_pool_final nested_drain nested_start overtaking_def
  by (simp add: nested_eval)

text \<open>
  Claim C8, as stated, fails with two threads or more: the task that passed the lock
  second may emit first. In the run below (eight threads) the first event reports two
  files and eight bytes, the second one file and three bytes.
\<close>

theorem overtaking_events_decrease:
  "effective_workers nested_config = 8 \<and>
   br_events (backup_run plain_os (\<lambda>b. b) nested_tree nested_config overtaking nested_world) =
     [(2, ''b'', 5, 8), (1, ''a'', 3, 3)] \<and>
   \<not> sorted (map event_files
         (br_events (backup_run plain_os (\<lambda>b. b) nested_tree nested_config overtaking nested_world))) \<and>
   \<not> sorted (map event_bytes
         (br_events (backup_run plain_os (\<lambda>b. b) nested_tree nested_config overtaking nested_world)))"
proof -
  have "br_events (backup_run plain_os (\<lambda>b. b) nested_tree nested_config overtaking nested_world) =
     [(2, ''b'', 5, 8), (1, ''a'', 3, 3)]"
    by (simp add: backup_run_def nested_build nested_workers completion_def
          nested_overtaking_final)
  then show ?thesis
    by (simp add: nested_workers event_files_def event_bytes_def)
qed

lemma nested_single_sel:
  "source_dir nested_config_single = ''s''" "destination_root nested_config_single = ''d''"
  "patterns nested_config_single = [''*'']" "verify_hash nested_config_single = True"
  by (simp_all add: nested_config_single_def nested_config_def)

lemma nested_single_workers: "effective_workers nested_config_single = 1"
  by (simp add: effective_workers_def nested_config_single_def)

lemma nested_single_build:
  "build_plan plain_os nested_tree nested_config_single nested_world =
     \<lparr>pl_world = nested_world, pl_log = [start_line nested_config_single],
      pl_plan = nested_plan, pl_total_size = 8, pl_total_files = 4\<rparr>"
  by (simp add: build_plan_def nested_single_sel nested_scan plan_dir_def plain_os_sel
        plan_file_def pattern_selected_def join_def isabs_def nested_world_def Let_def
        nested_plan_def)

lemma nested_single_pool_final:
  "pool_final plain_os (\<lambda>b. b) nested_tree nested_config_single schedule nested_world =
     fold (step plain_os (\<lambda>b. b) True 1 nested_plan) (schedule @ drain_schedule (length nested_plan))
       (pool_start nested_world [start_line nested_config_single] nested_plan)"
  by (simp add: pool_final_def run_pool_def nested_single_build nested_single_workers
        nested_single_sel Let_def)

lemma nested_single_final:
  "p_events (pool_final plain_os (\<lambda>b. b) nested_tree nested_config_single overtaking nested_world) =
     [(1, ''a'', 3, 3), (2, ''b'', 5, 8)]"
  unfolding nested_single_pool_final nested_drain nested_start overtaking_def
  by (simp add: nested_eval)



lemma pool_at_append:
  "pool_at os md5 t cfg (before @ later) w =
     fold (step os md5 (verify_hash cfg) (effective_workers cfg) (pl_plan (build_plan os t cfg w)))
       later (pool_at os md5 t cfg before w)"
  by (simp add: pool_at_def Let_def)

lemma run_events_consistent:
  fixes os :: "'w backup_os"
  shows "readings_ok (pool_final os md5 t cfg schedule w)"
  unfolding pool_final_def Let_def run_pool_def
  by (rule fold_invariant[where P = readings_ok]) (simp_all add: readings_ok_step readings_ok_start)

lemma run_events:
  "br_events (backup_run os md5 t cfg schedule w) = [] \<or>
   (br_events (backup_run os md5 t cfg schedule w) = p_events (pool_final os md5 t cfg schedule w) \<and>
    fst (br_finished (backup_run os md5 t cfg schedule w)) =
      files_copied (pool_final os md5 t cfg schedule w))"
  by (simp add: backup_run_def Let_def completion_def)

text \<open>
  Claim C8, amended. In every run: the two counters never decrease from one moment of the
  schedule to a later one; a task adds to both counters and reads the new pair in one
  step, and the event it emits reports that pair; of two emitted events the one that
  reports more files never reports fewer bytes, and two events that report the same
  number of files report the same number of bytes; no event reports more files than the
  terminal \<open>files_copied\<close>. When the pool has one thread, neither \<open>files_processed\<close> nor
  \<open>copied_size\<close> decreases from one emitted event to the next.
\<close>

theorem progress_events_consistent:
  fixes os :: "'w backup_os"
  shows
    "(\<forall>before later.
        files_copied (pool_at os md5 t cfg before w) \<le>
          files_copied (pool_at os md5 t cfg (before @ later) w) \<and>
        copied_size (pool_at os md5 t cfg before w) \<le>
          copied_size (pool_at os md5 t cfg (before @ later) w)) \<and>
     (\<forall>(s :: 'w pool) i src dst fsize (plan :: task list) workers verify.
        i < length plan \<and> i < length (p_phases s) \<and> plan ! i = (src, dst, fsize) \<and>
        p_phases s ! i = Copied \<longrightarrow>
        worker_step os md5 verify workers plan i s =
          s\<lparr>files_copied := files_copied s + 1, copied_size := copied_size s + fsize,
            p_phases := (p_phases s)[i := Counted (files_copied s + 1) (copied_size s + fsize)]\<rparr>) \<and>
     (\<forall>(s :: 'w pool) i src dst fsize fp cs (plan :: task list) workers verify.
        i < length plan \<and> i < length (p_phases s) \<and> plan ! i = (src, dst, fsize) \<and>
        p_phases s ! i = Counted fp cs \<longrightarrow>
        p_events (worker_step os md5 verify workers plan i s) =
          p_events s @ [(fp, basename src, fsize, cs)]) \<and>
     (\<forall>e1 \<in> set (br_events (backup_run os md5 t cfg schedule w)).
      \<forall>e2 \<in> set (br_events (backup_run os md5 t cfg schedule w)).
        (event_files e1 < event_files e2 \<longrightarrow> event_bytes e1 \<le> event_bytes e2) \<and>
        (event_files e1 = event_files e2 \<longrightarrow> event_bytes e1 = event_bytes e2)) \<and>
     (\<forall>e \<in> set (br_events (backup_run os md5 t cfg schedule w)).
        event_files e \<le> fst (br_finished (backup_run os md5 t cfg schedule w))) \<and>
     (effective_workers cfg = 1 \<longrightarrow>
        sorted (map event_files (br_events (backup_run os md5 t cfg schedule w))) \<and>
        sorted (map event_bytes (br_events (backup_run os md5 t cfg schedule w))))"
proof (intro conjI)
  show "\<forall>before later.
        files_copied (pool_at os md5 t cfg before w) \<le>
          files_copied (pool_at os md5 t cfg (before @ later) w) \<and>
        copied_size (pool_at os md5 t cfg before w) \<le>
          copied_size (pool_at os md5 t cfg (before @ later) w)"
    unfolding pool_at_append by (intro allI conjI run_files_copied run_copied_size)
next
  show "\<forall>(s :: 'w pool) i src dst fsize (plan :: task list) workers verify.
        i < length plan \<and> i < length (p_phases s) \<and> plan ! i = (src, dst, fsize) \<and>
        p_phases s ! i = Copied \<longrightarrow>
        worker_step os md5 verify workers plan i s =
          s\<lparr>files_copied := files_copied s + 1, copied_size := copied_size s + fsize,
            p_phases := (p_phases s)[i := Counted (files_copied s + 1) (copied_size s + fsize)]\<rparr>"
    by (simp add: worker_step_def)
next
  show "\<forall>(s :: 'w pool) i src dst fsize fp cs (plan :: task list) workers verify.
        i < length plan \<and> i < length (p_phases s) \<and> plan ! i = (src, dst, fsize) \<and>
        p_phases s ! i = Counted fp cs \<longrightarrow>
        p_events (worker_step os md5 verify workers plan i s) =
          p_events s @ [(fp, basename src, fsize, cs)]"
    by (simp add: worker_step_def finish_def)
next
  let ?r = "backup_run os md5 t cfg schedule w"
  let ?f = "pool_final os md5 t cfg schedule w"
  have ok: "readings_ok ?f" by (rule run_events_consistent)
  have mem: "(event_files e, event_bytes e) \<in> readings ?f" if "e \<in> set (br_events ?r)" for e
  proof -
    from that run_events[of os md5 t cfg schedule w] have "e \<in> set (p_events ?f)"
      by auto
    then show ?thesis by (simp add: readings_def)
  qed
  show "\<forall>e1 \<in> set (br_events ?r). \<forall>e2 \<in> set (br_events ?r).
        (event_files e1 < event_files e2 \<longrightarrow> event_bytes e1 \<le> event_bytes e2) \<and>
        (event_files e1 = event_files e2 \<longrightarrow> event_bytes e1 = event_bytes e2)"
  proof (intro ballI)
    fix e1 e2 assume "e1 \<in> set (br_events ?r)" "e2 \<in> set (br_events ?r)"
    then have "(event_files e1, event_bytes e1) \<in> readings ?f"
      "(event_files e2, event_bytes e2) \<in> readings ?f"
      by (auto intro: mem)
    with ok have "(fst (event_files e1, event_bytes e1) < fst (event_files e2, event_bytes e2) \<longrightarrow>
        snd (event_files e1, event_bytes e1) \<le> snd (event_files e2, event_bytes e2)) \<and>
       (fst (event_files e1, event_bytes e1) = fst (event_files e2, event_bytes e2) \<longrightarrow>
        snd (event_files e1, event_bytes e1) = snd (event_files e2, event_bytes e2))"
      unfolding readings_ok_def by blast
    then show "(event_files e1 < event_files e2 \<longrightarrow> event_bytes e1 \<le> event_bytes e2) \<and>
        (event_files e1 = event_files e2 \<longrightarrow> event_bytes e1 = event_bytes e2)"
      by simp
  qed
  show "\<forall>e \<in> set (br_events ?r). event_files e \<le> fst (br_finished ?r)"
  proof (rule ballI)
    fix e assume e: "e \<in> set (br_events ?r)"
    then have "(event_files e, event_bytes e) \<in> readings ?f" by (rule mem)
    with ok have "fst (event_files e, event_bytes e) \<le> files_copied ?f"
      unfolding readings_ok_def by blast
    moreover from e run_events[of os md5 t cfg schedule w]
    have "fst (br_finished ?r) = files_copied ?f" by auto
    ultimately show "event_files e \<le> fst (br_finished ?r)" by simp
  qed
  show "effective_workers cfg = 1 \<longrightarrow>
        sorted (map event_files (br_events ?r)) \<and> sorted (map event_bytes (br_events ?r))"
    by (intro impI single_worker_sorted)
qed

theorem progress_events_consistent_witness:
  "effective_workers nested_config_single = 1 \<and>
   br_events (backup_run plain_os (\<lambda>b. b) nested_tree nested_config_single overtaking
     nested_world) = [(1, ''a'', 3, 3), (2, ''b'', 5, 8)] \<and>
   event_files (1, ''a'', 3, 3) < event_files (2, ''b'', 5, 8) \<and>
   event_bytes (1, ''a'', 3, 3) \<le> event_bytes (2, ''b'', 5, 8) \<and>
   event_files (2, ''b'', 5, 8) \<le> fst (br_finished (backup_run plain_os (\<lambda>b. b) nested_tree
     nested_config_single overtaking nested_world)) \<and>
   sorted (map event_files (br_events (backup_run plain_os (\<lambda>b. b) nested_tree
     nested_config_single overtaking nested_world))) \<and>
   sorted (map event_bytes (br_events (backup_run plain_os (\<lambda>b. b) nested_tree
     nested_config_single overtaking nested_world))) \<and>
   files_copied (pool_at plain_os (\<lambda>b. b) nested_tree nested_config_single [Worker 0, Worker 0]
     nested_world) \<le>
   files_copied (pool_at plain_os (\<lambda>b. b) nested_tree nested_config_single
     ([Worker 0, Worker 0] @ [Worker 0]) nested_world)"
proof -
  let ?r = "backup_run plain_os (\<lambda>b. b) nested_tree nested_config_single overtaking nested_world"
  note inst = progress_events_consistent[of plain_os "\<lambda>b. b" nested_tree nested_config_single
      nested_world overtaking]
  have h: "effective_workers nested_config_single = 1"
    by (rule nested_single_workers)
  have ev: "br_events ?r = [(1, ''a'', 3, 3), (2, ''b'', 5, 8)]"
    by (simp add: backup_run_def nested_single_build nested_single_workers completion_def
          nested_single_final)
  then have m1: "(1, ''a'', 3, 3) \<in> set (br_events ?r)" and m2: "(2, ''b'', 5, 8) \<in> set (br_events ?r)"
    by simp_all
  have lt: "event_files (1, ''a'', 3, 3) < event_files (2, ''b'', 5, 8)"
    by (simp add: event_files_def)
  note grow = inst[THEN conjunct1]
  note pairs = inst[THEN conjunct2, THEN conjunct2, THEN conjunct2, THEN conjunct1]
  note below = inst[THEN conjunct2, THEN conjunct2, THEN conjunct2, THEN conjunct2, THEN conjunct1]
  note single = inst[THEN conjunct2, THEN conjunct2, THEN conjunct2, THEN conjunct2, THEN conjunct2]
  from pairs[rule_format, OF m1 m2] lt
  have "event_bytes (1, ''a'', 3, 3) \<le> event_bytes (2, ''b'', 5, 8)"
    by simp
  moreover from below[rule_format, OF m2]
  have "event_files (2, ''b'', 5, 8) \<le> fst (br_finished ?r)" .
  moreover from single[rule_format, OF h] have "sorted (map event_files (br_events ?r))"
    "sorted (map event_bytes (br_events ?r))"
    by simp_all
  moreover from grow[rule_format, of "[Worker 0, Worker 0]" "[Worker 0]"]
  have "files_copied (pool_at plain_os (\<lambda>b. b) nested_tree nested_config_single
       [Worker 0, Worker 0] nested_world) \<le>
     files_copied (pool_at plain_os (\<lambda>b. b) nested_tree nested_config_single
       ([Worker 0, Worker 0] @ [Worker 0]) nested_world)"
    by simp
  ultimately show ?thesis
    using h ev lt by (simp del: append.simps)
qed


subsection \<open>Verification failures\<close>

lemma step_completed_grows:
  "set (p_completed s) \<subseteq> set (p_completed (step os md5 verify workers plan a s))"
proof (cases a)
  case (Worker i)
  show ?thesis
    unfolding Worker step_def action.case
    by (cases rule: worker_step_cases[of os md5 verify workers plan i s])
       (auto simp: finish_def)
qed (auto simp: step_def main_step_def split: prod.splits)

lemma run_completed_grows:
  "out \<in> set (p_completed s) \<Longrightarrow>
     out \<in> set (p_completed (fold (step os md5 verify workers plan) schedule s))"
  by (rule fold_invariant[where P = "\<lambda>u. out \<in> set (p_completed u)"])
     (use step_completed_grows in blast)

lemma step_finished_stays:
  assumes "j < length (p_phases s)" "p_phases s ! j = Finished out"
  shows "p_phases (step os md5 verify workers plan a s) ! j = Finished out"
proof (cases a)
  case (Worker i)
  have "p_phases (worker_step os md5 verify workers plan i s) ! j = Finished out"
    by (cases rule: worker_step_cases[of os md5 verify workers plan i s])
       (use assms in \<open>auto simp: finish_def nth_list_update\<close>)
  then show ?thesis by (simp add: Worker step_def)
qed (use assms in \<open>auto simp: step_def main_step_def split: prod.splits\<close>)

lemma run_finished_stays:
  assumes "j < length (p_phases s)" "p_phases s ! j = Finished out"
  shows "p_phases (fold (step os md5 verify workers plan) schedule s) ! j = Finished out"
proof -
  let ?P = "\<lambda>u. j < length (p_phases u) \<and> p_phases u ! j = Finished out"
  have "?P (fold (step os md5 verify workers plan) schedule s)"
    by (rule fold_invariant[where P = ?P])
       (use assms in \<open>auto simp: step_phases_length step_finished_stays\<close>)
  then show ?thesis by simp
qed

lemma step_futures_ok:
  assumes "futures_ok s"
  shows "futures_ok (step os md5 verify workers plan a s)"
proof (cases a)
  case (Worker i)
  have "futures_ok (worker_step os md5 verify workers plan i s)"
  proof (cases rule: worker_step_cases[of os md5 verify workers plan i s])
    case idle
    with assms show ?thesis by simp
  next
    case start
    with assms filter_update_count[of i "p_phases s" finished Started] show ?thesis
      by (simp add: futures_ok_def)
  next
    case (refuse src dst fsize)
    with assms filter_update_count[of i "p_phases s" finished
        "Finished (False, src, dst, fsize, Some ''cancelled'')"]
    show ?thesis by (simp add: futures_ok_def finish_def)
  next
    case (io_fail src dst fsize err w lg)
    with assms filter_update_count[of i "p_phases s" finished
        "Finished (False, src, dst, fsize, Some err)"]
    show ?thesis by (simp add: futures_ok_def finish_def)
  next
    case (io_ok w)
    with assms filter_update_count[of i "p_phases s" finished Copied] show ?thesis
      by (simp add: futures_ok_def)
  next
    case (count src dst fsize)
    with assms filter_update_count[of i "p_phases s" finished
        "Counted (files_copied s + 1) (copied_size s + fsize)"]
    show ?thesis by (simp add: futures_ok_def)
  next
    case (emit src dst fsize fp cs lg)
    with assms filter_update_count[of i "p_phases s" finished
        "Finished (True, src, dst, fsize, None)"]
    show ?thesis by (simp add: futures_ok_def finish_def)
  qed
  then show ?thesis by (simp add: Worker step_def)
next
  case Cancel
  with assms show ?thesis by (simp add: step_def futures_ok_def)
next
  case Main
  with assms show ?thesis by (simp add: step_def main_step_def futures_ok_def split: prod.splits)
qed

lemma failed_snoc: "failed (outs @ [out]) = failed outs + (if fst out then 0 else 1)"
  by (simp add: failed_def)

lemma step_main_loop_ok:
  assumes "main_loop_ok s"
  shows "main_loop_ok (step os md5 verify workers plan a s)"
proof (cases a)
  case (Worker i)
  have "main_loop_ok (worker_step os md5 verify workers plan i s)"
    by (cases rule: worker_step_cases[of os md5 verify workers plan i s])
       (use assms in \<open>auto simp: main_loop_ok_def finish_def\<close>)
  then show ?thesis by (simp add: Worker step_def)
next
  case Cancel
  with assms show ?thesis by (simp add: step_def main_loop_ok_def)
next
  case Main
  show ?thesis
  proof (cases "\<not> p_stopped s \<and> p_taken s < length (p_completed s)")
    case False
    with assms Main show ?thesis by (auto simp: step_def main_step_def)
  next
    case True
    then have tk: "take (Suc (p_taken s)) (p_completed s) =
        take (p_taken s) (p_completed s) @ [p_completed s ! p_taken s]"
      by (simp add: take_Suc_conv_app_nth)
    obtain ok src dst fsize err where out: "p_completed s ! p_taken s = (ok, src, dst, fsize, err)"
      by (cases "p_completed s ! p_taken s")
    from True assms out tk Main show ?thesis
      by (auto simp: step_def main_step_def main_loop_ok_def failed_snoc)
  qed
qed

lemma mains_take_all:
  assumes "main_loop_ok s" "\<not> cancelled s"
  shows "p_taken (fold (step os md5 verify workers plan) (replicate k Main) s) =
           min (p_taken s + k) (length (p_completed s)) \<and>
         p_completed (fold (step os md5 verify workers plan) (replicate k Main) s) = p_completed s"
  using assms
proof (induction k arbitrary: s)
  case 0
  then show ?case by (simp add: main_loop_ok_def)
next
  case (Suc k)
  let ?s' = "step os md5 verify workers plan Main s"
  have ok': "main_loop_ok ?s'" using Suc.prems(1) by (rule step_main_loop_ok)
  have nc': "\<not> cancelled ?s'"
    using Suc.prems(2) by (simp add: step_def main_step_def split: prod.splits)
  have ns: "\<not> p_stopped s" using Suc.prems by (auto simp: main_loop_ok_def)
  have c': "p_completed ?s' = p_completed s"
    by (simp add: step_def main_step_def split: prod.splits)
  have t': "p_taken ?s' = (if p_taken s < length (p_completed s) then p_taken s + 1 else p_taken s)"
    using ns Suc.prems(2) by (simp add: step_def main_step_def split: prod.splits)
  from Suc.IH[OF ok' nc'] c' t' Suc.prems(1) show ?case
    by (auto simp: main_loop_ok_def min_def)
qed


lemma py_str_not_mismatch: "py_str e \<noteq> ''hash mismatch''"
  by (cases e) (simp_all add: py_repr_def)

lemma pool_start_ok:
  "main_loop_ok (pool_start w lg plan)" "futures_ok (pool_start w lg plan)"
  by (simp_all add: main_loop_ok_def futures_ok_def pool_start_def failed_def)

lemma run_main_loop_ok:
  "main_loop_ok s \<Longrightarrow> main_loop_ok (fold (step os md5 verify workers plan) schedule s)"
  by (rule fold_invariant[where P = main_loop_ok]) (rule step_main_loop_ok)

lemma run_futures_ok:
  "futures_ok s \<Longrightarrow> futures_ok (fold (step os md5 verify workers plan) schedule s)"
  by (rule fold_invariant[where P = futures_ok]) (rule step_futures_ok)

lemma final_errors:
  assumes "\<not> cancelled (run_pool os md5 verify workers plan schedule (pool_start w lg plan))"
  shows "p_errors (run_pool os md5 verify workers plan schedule (pool_start w lg plan)) =
           failed (p_completed (run_pool os md5 verify workers plan schedule (pool_start w lg plan)))"
proof -
  let ?step = "step os md5 verify workers plan"
  let ?n = "length plan"
  let ?pre = "schedule @ concat (map (\<lambda>i. replicate 4 (Worker i)) [0..<?n])"
  let ?v = "fold ?step ?pre (pool_start w lg plan)"
  let ?f = "fold ?step (replicate ?n Main) ?v"
  have f: "run_pool os md5 verify workers plan schedule (pool_start w lg plan) = ?f"
    by (simp add: run_pool_def drain_schedule_def)
  have okv: "main_loop_ok ?v"
    by (rule run_main_loop_ok) (rule pool_start_ok)
  have fv: "futures_ok ?v"
    by (rule run_futures_ok) (rule pool_start_ok)
  have "length (p_phases ?v) = length (p_phases (pool_start w lg plan))"
    by (rule run_phases_length)
  then have lv: "length (p_phases ?v) = ?n"
    by (simp add: pool_start_def)
  have len: "length (p_completed ?v) \<le> ?n"
    using fv lv length_filter_le[of finished "p_phases ?v"] by (simp add: futures_ok_def)
  have ncv: "\<not> cancelled ?v"
  proof
    assume "cancelled ?v"
    then have "cancelled ?f" by (rule run_cancelled)
    with assms f show False by simp
  qed
  from mains_take_all[OF okv ncv, of os md5 verify workers plan ?n]
  have "p_taken ?f = min (p_taken ?v + ?n) (length (p_completed ?v))"
    and cf: "p_completed ?f = p_completed ?v"
    by simp_all
  with len have tk: "p_taken ?f = length (p_completed ?f)"
    by simp
  have okf: "main_loop_ok ?f"
    by (rule run_main_loop_ok) (rule okv)
  have "\<not> p_stopped ?f"
    using okf assms f by (auto simp: main_loop_ok_def)
  with okf have "p_errors ?f = failed (take (p_taken ?f) (p_completed ?f))"
    by (simp add: main_loop_ok_def)
  with tk show ?thesis
    unfolding f by simp
qed

lemma failed_pos: "out \<in> set outs \<Longrightarrow> \<not> fst out \<Longrightarrow> 1 \<le> failed outs"
  unfolding failed_def
  by (metis One_nat_def Suc_leI filter_empty_conv length_greater_0_conv)



text \<open>
  Claim C4, amended. Let a task of a verifying run reach the comparison of the digests
  with \<open>makedirs\<close> and \<open>copy2\<close> done and the two digests different. Its result is
  \<open>(False, src, dst, fsize, "hash mismatch")\<close> and the line logged is \<open>HASH MISMATCH\<close>;
  no exception has \<open>"hash mismatch"\<close> as its \<open>str\<close>, and no \<open>ERROR copying\<close> line is
  the \<open>HASH MISMATCH\<close> line. In the terminal result \<open>success\<close> is false; the task stays
  finished with that result and is not among the counted tasks, whose number is the
  number of files copied. If the run is not cancelled, the task is counted in
  \<open>errors\<close>, which is the number of failed results, and the terminal message is the
  summary with that count; if the run is cancelled, the terminal message is the
  cancellation message and reports no count.
\<close>

theorem hash_mismatch_reported:
  fixes os :: "'w backup_os"
  assumes "0 < effective_workers cfg" and "verify_hash cfg"
    and "i < length (pl_plan (build_plan os t cfg w))"
    and "pl_plan (build_plan os t cfg w) ! i = (src, dst, fsize)"
    and "p_phases (pool_at os md5 t cfg before w) ! i = Started"
    and "os_makedirs os (p_world (pool_at os md5 t cfg before w)) (dirname dst) = (None, w1)"
    and "os_copy2 os w1 src dst = (None, w2)"
    and "chunked_file_hash md5 (io_of os w2) src = Inr src_hash"
    and "chunked_file_hash md5 (io_of os w2) dst = Inr dst_hash"
    and "src_hash \<noteq> dst_hash"
  shows
    "pool_at os md5 t cfg (before @ [Worker i]) w =
       finish i (False, src, dst, fsize, Some ''hash mismatch'')
         ((pool_at os md5 t cfg before w)
            \<lparr>p_world := w2,
             p_log := p_log (pool_at os md5 t cfg before w) @
                        [''HASH MISMATCH '' @ src @ '' -> '' @ dst]\<rparr>) \<and>
     (\<forall>e. py_str e \<noteq> ''hash mismatch'') \<and>
     (\<forall>e. ''ERROR copying '' @ src @ '' -> '' @ dst @ '': '' @ py_str e \<noteq>
            ''HASH MISMATCH '' @ src @ '' -> '' @ dst) \<and>
     fst (snd (br_finished (backup_run os md5 t cfg (before @ Worker i # rest) w))) = False \<and>
     fst (br_finished (backup_run os md5 t cfg (before @ Worker i # rest) w)) <
       length (pl_plan (build_plan os t cfg w)) \<and>
     (False, src, dst, fsize, Some ''hash mismatch'') \<in>
       set (p_completed (pool_final os md5 t cfg (before @ Worker i # rest) w)) \<and>
     p_phases (pool_final os md5 t cfg (before @ Worker i # rest) w) ! i =
       Finished (False, src, dst, fsize, Some ''hash mismatch'') \<and>
     files_copied (pool_final os md5 t cfg (before @ Worker i # rest) w) =
       length (filter counted (p_phases (pool_final os md5 t cfg (before @ Worker i # rest) w))) \<and>
     (\<not> cancelled (pool_final os md5 t cfg (before @ Worker i # rest) w) \<longrightarrow>
        1 \<le> p_errors (pool_final os md5 t cfg (before @ Worker i # rest) w) \<and>
        p_errors (pool_final os md5 t cfg (before @ Worker i # rest) w) =
          failed (p_completed (pool_final os md5 t cfg (before @ Worker i # rest) w)) \<and>
        br_finished (backup_run os md5 t cfg (before @ Worker i # rest) w) =
          (files_copied (pool_final os md5 t cfg (before @ Worker i # rest) w), False,
           summary (files_copied (pool_final os md5 t cfg (before @ Worker i # rest) w))
             (p_errors (pool_final os md5 t cfg (before @ Worker i # rest) w)))) \<and>
     (cancelled (pool_final os md5 t cfg (before @ Worker i # rest) w) \<longrightarrow>
        br_finished (backup_run os md5 t cfg (before @ Worker i # rest) w) =
          (files_copied (pool_final os md5 t cfg (before @ Worker i # rest) w), False,
           ''Backup cancelled by user.''))"
proof -
  let ?pl = "build_plan os t cfg w"
  let ?plan = "pl_plan ?pl"
  let ?n = "length ?plan"
  let ?step = "step os md5 (verify_hash cfg) (effective_workers cfg) ?plan"
  let ?init = "pool_start (pl_world ?pl) (pl_log ?pl) ?plan"
  let ?s = "pool_at os md5 t cfg before w"
  let ?out = "(False, src, dst, fsize, Some ''hash mismatch'')"
  let ?m = "finish i ?out (?s\<lparr>p_world := w2,
              p_log := p_log ?s @ [''HASH MISMATCH '' @ src @ '' -> '' @ dst]\<rparr>)"
  let ?F = "pool_final os md5 t cfg (before @ Worker i # rest) w"
  let ?R = "backup_run os md5 t cfg (before @ Worker i # rest) w"
  have s: "?s = fold ?step before ?init"
    by (simp add: pool_at_def Let_def)
  have ls: "length (p_phases ?s) = ?n"
    unfolding s using run_phases_length[of os md5 "verify_hash cfg" "effective_workers cfg" ?plan
        before ?init] by (simp add: pool_start_def)
  have "?step (Worker i) ?s = copy_io os md5 (verify_hash cfg) i (src, dst, fsize) ?s"
    using assms(3,4,5) ls by (simp add: step_def worker_step_def)
  also have "\<dots> = ?m"
    using assms(2,6,7,8,9,10) by (simp add: copy_io_def)
  finally have m: "?step (Worker i) ?s = ?m" .
  have at: "pool_at os md5 t cfg (before @ [Worker i]) w = ?m"
    using m by (simp add: pool_at_def Let_def)
  have F: "?F = fold ?step (rest @ drain_schedule ?n) ?m"
    using m s by (simp add: pool_final_def run_pool_def Let_def)
  have Fall: "?F = run_pool os md5 (verify_hash cfg) (effective_workers cfg) ?plan
                     (before @ Worker i # rest) ?init"
    by (simp add: pool_final_def Let_def)
  have "?out \<in> set (p_completed ?m)"
    by (simp add: finish_def)
  then have mem: "?out \<in> set (p_completed ?F)"
    unfolding F by (rule run_completed_grows)
  have lm: "i < length (p_phases ?m)"
    using assms(3) ls by (simp add: finish_def)
  have "p_phases ?m ! i = Finished ?out"
    using assms(3) ls by (simp add: finish_def)
  with lm have fin: "p_phases ?F ! i = Finished ?out"
    unfolding F by (rule run_finished_stays)
  have lF: "length (p_phases ?F) = ?n"
    unfolding Fall run_pool_def
    using run_phases_length[of os md5 "verify_hash cfg" "effective_workers cfg" ?plan
        "(before @ Worker i # rest) @ drain_schedule ?n" ?init] by (simp add: pool_start_def)
  have eq: "files_copied ?F = length (filter counted (p_phases ?F))"
    unfolding Fall run_pool_def by (rule run_counted_eq) (rule pool_start_counted)
  have "p_phases ?F ! i \<in> set (p_phases ?F)"
    using assms(3) lF by simp
  with fin have "\<exists>ph \<in> set (p_phases ?F). \<not> counted ph"
    by (metis counted.simps(2) fst_conv)
  then have "length (filter counted (p_phases ?F)) < length (p_phases ?F)"
    by (meson length_filter_less)
  with eq lF have less: "files_copied ?F < ?n"
    by simp
  have "pl_total_files ?pl \<noteq> 0"
    using assms(3) build_plan_count[of os t cfg w] by auto
  with assms(1) have R: "?R = completion ?F"
    by (simp add: backup_run_def Let_def)
  have err: "p_errors ?F = failed (p_completed ?F)" if "\<not> cancelled ?F"
    using that final_errors[of os md5 "verify_hash cfg" "effective_workers cfg" ?plan
        "before @ Worker i # rest" "pl_world ?pl" "pl_log ?pl"]
    unfolding Fall by simp
  have pos: "1 \<le> failed (p_completed ?F)"
    using mem by (rule failed_pos) simp
  have line: "''ERROR copying '' @ src @ '' -> '' @ dst @ '': '' @ py_str e \<noteq>
            ''HASH MISMATCH '' @ src @ '' -> '' @ dst" for e
    by simp
  show ?thesis
  proof (intro conjI allI impI)
    show "pool_at os md5 t cfg (before @ [Worker i]) w = ?m" by (rule at)
    show "py_str e \<noteq> ''hash mismatch''" for e by (rule py_str_not_mismatch)
    show "''ERROR copying '' @ src @ '' -> '' @ dst @ '': '' @ py_str e \<noteq>
            ''HASH MISMATCH '' @ src @ '' -> '' @ dst" for e by (rule line)
    show "fst (snd (br_finished ?R)) = False"
    proof (cases "cancelled ?F")
      case True
      then show ?thesis by (simp add: R completion_def)
    next
      case False
      with err pos show ?thesis by (simp add: R completion_def)
    qed
    show "fst (br_finished ?R) < ?n"
      using less by (simp add: R completion_def)
    show "?out \<in> set (p_completed ?F)" by (rule mem)
    show "p_phases ?F ! i = Finished ?out" by (rule fin)
    show "files_copied ?F = length (filter counted (p_phases ?F))" by (rule eq)
    show "1 \<le> p_errors ?F" if "\<not> cancelled ?F"
      using that err pos by simp
    show "p_errors ?F = failed (p_completed ?F)" if "\<not> cancelled ?F"
      using that by (rule err)
    show "br_finished ?R = (files_copied ?F, False, summary (files_copied ?F) (p_errors ?F))"
      if "\<not> cancelled ?F"
      using that err pos by (simp add: R completion_def)
    show "br_finished ?R = (files_copied ?F, False, ''Backup cancelled by user.'')"
      if "cancelled ?F"
      using that by (simp add: R completion_def)
  qed
qed

subsection \<open>A destination that loses data\<close>


lemma lossy_os_sel:
  "os_relpath lossy_os p start = (if p = start then ''.'' else drop (length start + 1) p)"
  "os_makedirs lossy_os w p = (None, w)"
  "os_getsize lossy_os w p = (case w p of None \<Rightarrow> Inl (no_such_file p) | Some b \<Rightarrow> Inr (length b))"
  "os_copy2 lossy_os w src dst =
     (if src = dst then (Some (SameFileError src dst), w)
      else (case w src of None \<Rightarrow> (Some (no_such_file src), w)
            | Some b \<Rightarrow> (None, w(dst \<mapsto> take 1 b))))"
  "os_open_rb lossy_os w p = (case w p of None \<Rightarrow> Inl (no_such_file p) | Some b \<Rightarrow> Inr b)"
  by (simp_all add: lossy_os_def plain_os_def)

lemma lossy_build:
  "build_plan lossy_os nested_tree nested_config nested_world =
     \<lparr>pl_world = nested_world, pl_log = [start_line nested_config],
      pl_plan = [(''s/s/a'', ''d/./s/a'', 3), (''s/s/b'', ''d/./s/b'', 5),
                 (''s/s/s/s/a'', ''d/s/s/s/a'', 0), (''s/s/s/s/b'', ''d/s/s/s/b'', 0)],
      pl_total_size = 8, pl_total_files = 4\<rparr>"
  by (simp add: build_plan_def nested_config_sel nested_scan plan_dir_def lossy_os_sel
        plan_file_def pattern_selected_def join_def isabs_def nested_world_def Let_def)

lemma lossy_pool_at:
  "pool_at lossy_os (\<lambda>b. b) nested_tree nested_config schedule nested_world =
     fold (step lossy_os (\<lambda>b. b) True 8 nested_plan) schedule
       (pool_start nested_world [start_line nested_config] nested_plan)"
  by (simp add: pool_at_def lossy_build nested_workers nested_config_sel nested_plan_def Let_def)

lemma lossy_pool_final:
  "pool_final lossy_os (\<lambda>b. b) nested_tree nested_config schedule nested_world =
     fold (step lossy_os (\<lambda>b. b) True 8 nested_plan) (schedule @ drain_schedule (length nested_plan))
       (pool_start nested_world [start_line nested_config] nested_plan)"
  by (simp add: pool_final_def run_pool_def lossy_build nested_workers nested_config_sel
        nested_plan_def Let_def)

lemmas lossy_eval =
  step_def worker_step_def may_start_def nested_plan_def copy_io_def copy_failed_def
  lossy_os_sel nested_dirname nested_basename nested_world_at chunked_file_hash_eq io_of_sel
  finish_def main_step_def

lemma lossy_started:
  "p_phases (pool_at lossy_os (\<lambda>b. b) nested_tree nested_config [Worker 0] nested_world) ! 0
     = Started \<and>
   p_world (pool_at lossy_os (\<lambda>b. b) nested_tree nested_config [Worker 0] nested_world)
     = nested_world"
  unfolding lossy_pool_at nested_start
  by (simp add: lossy_eval)

lemma lossy_final:
  "files_copied (pool_final lossy_os (\<lambda>b. b) nested_tree nested_config
      ([Worker 0] @ Worker 0 # []) nested_world) = 0 \<and>
   p_errors (pool_final lossy_os (\<lambda>b. b) nested_tree nested_config
      ([Worker 0] @ Worker 0 # []) nested_world) = 4 \<and>
   \<not> cancelled (pool_final lossy_os (\<lambda>b. b) nested_tree nested_config
      ([Worker 0] @ Worker 0 # []) nested_world)"
  unfolding lossy_pool_final nested_drain nested_start
  by (simp add: lossy_eval)

lemma lossy_cancelled_final:
  "p_completed (pool_final lossy_os (\<lambda>b. b) nested_tree nested_config
      [Worker 0, Worker 0, Cancel] nested_world) =
     [(False, ''s/s/a'', ''d/./s/a'', 3, Some ''hash mismatch''),
      (False, ''s/s/b'', ''d/./s/b'', 5, Some ''cancelled''),
      (False, ''s/s/s/s/a'', ''d/s/s/s/a'', 0, Some ''cancelled''),
      (False, ''s/s/s/s/b'', ''d/s/s/s/b'', 0, Some ''cancelled'')] \<and>
   p_errors (pool_final lossy_os (\<lambda>b. b) nested_tree nested_config
      [Worker 0, Worker 0, Cancel] nested_world) = 0 \<and>
   files_copied (pool_final lossy_os (\<lambda>b. b) nested_tree nested_config
      [Worker 0, Worker 0, Cancel] nested_world) = 0 \<and>
   cancelled (pool_final lossy_os (\<lambda>b. b) nested_tree nested_config
      [Worker 0, Worker 0, Cancel] nested_world)"
  unfolding lossy_pool_final nested_drain nested_start
  by (simp add: lossy_eval)


lemma lossy_before:
  "p_completed (pool_at lossy_os (\<lambda>b. b) nested_tree nested_config [Worker 0] nested_world) = [] \<and>
   p_log (pool_at lossy_os (\<lambda>b. b) nested_tree nested_config [Worker 0] nested_world) =
     [start_line nested_config]"
  unfolding lossy_pool_at nested_start
  by (simp add: lossy_eval)

lemma lossy_mismatch_done:
  "p_completed (pool_at lossy_os (\<lambda>b. b) nested_tree nested_config [Worker 0, Worker 0]
      nested_world) = [(False, ''s/s/a'', ''d/./s/a'', 3, Some ''hash mismatch'')]"
  unfolding lossy_pool_at nested_start
  by (simp add: lossy_eval)

lemma lossy_cancelled_log:
  "p_log (pool_final lossy_os (\<lambda>b. b) nested_tree nested_config
      [Worker 0, Worker 0, Cancel] nested_world) =
     [start_line nested_config, ''HASH MISMATCH s/s/a -> d/./s/a'']"
  unfolding lossy_pool_final nested_drain nested_start
  by (simp add: lossy_eval)

lemma dec4: "dec 4 = ''4''" "dec 0 = ''0''"
  by code_simp+

text \<open>
  Claim C4, as stated, fails for a run that is cancelled. Over the lossy destination
  the first task ends in a hash mismatch; the flag is then set. The mismatch is logged,
  but the loop of \<open>run\<close> leaves before it counts the result, and the terminal result
  is the cancellation message, which reports no error.
\<close>

theorem mismatch_uncounted_when_cancelled:
  "verify_hash nested_config \<and>
   p_completed (pool_at lossy_os (\<lambda>b. b) nested_tree nested_config [Worker 0, Worker 0]
      nested_world) = [(False, ''s/s/a'', ''d/./s/a'', 3, Some ''hash mismatch'')] \<and>
   p_errors (pool_final lossy_os (\<lambda>b. b) nested_tree nested_config
      [Worker 0, Worker 0, Cancel] nested_world) = 0 \<and>
   br_log (backup_run lossy_os (\<lambda>b. b) nested_tree nested_config
      [Worker 0, Worker 0, Cancel] nested_world) =
     [start_line nested_config, ''HASH MISMATCH s/s/a -> d/./s/a'', ''CANCELLED by user''] \<and>
   br_finished (backup_run lossy_os (\<lambda>b. b) nested_tree nested_config
      [Worker 0, Worker 0, Cancel] nested_world) = (0, False, ''Backup cancelled by user.'')"
  using lossy_cancelled_final lossy_mismatch_done lossy_cancelled_log
  by (simp add: nested_config_sel backup_run_def lossy_build nested_workers completion_def)

text \<open>
  The amended claim on the same tree without cancellation: the first task ends in a
  hash mismatch and the terminal result counts four errors (two mismatches, two sources
  that do not exist).
\<close>

theorem hash_mismatch_reported_witness:
  "0 < effective_workers nested_config \<and> verify_hash nested_config \<and>
   pl_plan (build_plan lossy_os nested_tree nested_config nested_world) ! 0 =
     (''s/s/a'', ''d/./s/a'', 3) \<and>
   p_phases (pool_at lossy_os (\<lambda>b. b) nested_tree nested_config [Worker 0] nested_world) ! 0 =
     Started \<and>
   os_copy2 lossy_os nested_world ''s/s/a'' ''d/./s/a'' =
     (None, nested_world(''d/./s/a'' \<mapsto> ''a'')) \<and>
   chunked_file_hash (\<lambda>b. b) (io_of lossy_os (nested_world(''d/./s/a'' \<mapsto> ''a''))) ''s/s/a'' =
     Inr ''aaa'' \<and>
   chunked_file_hash (\<lambda>b. b) (io_of lossy_os (nested_world(''d/./s/a'' \<mapsto> ''a''))) ''d/./s/a'' =
     Inr ''a'' \<and>
   p_completed (pool_at lossy_os (\<lambda>b. b) nested_tree nested_config ([Worker 0] @ [Worker 0])
      nested_world) = [(False, ''s/s/a'', ''d/./s/a'', 3, Some ''hash mismatch'')] \<and>
   p_log (pool_at lossy_os (\<lambda>b. b) nested_tree nested_config ([Worker 0] @ [Worker 0])
      nested_world) = [start_line nested_config, ''HASH MISMATCH s/s/a -> d/./s/a''] \<and>
   br_finished (backup_run lossy_os (\<lambda>b. b) nested_tree nested_config
      ([Worker 0] @ Worker 0 # []) nested_world) =
     (0, False, ''DONE. Files copied: 0; Errors: 4'')"
proof -
  let ?w2 = "nested_world(''d/./s/a'' \<mapsto> ''a'')"
  have h1: "0 < effective_workers nested_config"
    by (simp add: nested_workers)
  have h2: "verify_hash nested_config"
    by (simp add: nested_config_sel)
  have h3: "0 < length (pl_plan (build_plan lossy_os nested_tree nested_config nested_world))"
    by (simp add: lossy_build)
  have h4: "pl_plan (build_plan lossy_os nested_tree nested_config nested_world) ! 0 =
     (''s/s/a'', ''d/./s/a'', 3)"
    by (simp add: lossy_build)
  have h5: "p_phases (pool_at lossy_os (\<lambda>b. b) nested_tree nested_config [Worker 0]
      nested_world) ! 0 = Started"
    using lossy_started by simp
  have h6: "os_makedirs lossy_os (p_world (pool_at lossy_os (\<lambda>b. b) nested_tree nested_config
      [Worker 0] nested_world)) (dirname ''d/./s/a'') = (None, nested_world)"
    using lossy_started by (simp add: lossy_os_sel)
  have h7: "os_copy2 lossy_os nested_world ''s/s/a'' ''d/./s/a'' = (None, ?w2)"
    by (simp add: lossy_os_sel nested_world_at)
  have h8: "chunked_file_hash (\<lambda>b. b) (io_of lossy_os ?w2) ''s/s/a'' = Inr ''aaa''"
    by (simp add: chunked_file_hash_eq io_of_sel lossy_os_sel nested_world_at)
  have h9: "chunked_file_hash (\<lambda>b. b) (io_of lossy_os ?w2) ''d/./s/a'' = Inr ''a''"
    by (simp add: chunked_file_hash_eq io_of_sel lossy_os_sel)
  have h10: "''aaa'' \<noteq> ''a''"
    by simp
  note inst = hash_mismatch_reported[OF h1 h2 h3 h4 h5 h6 h7 h8 h9 h10, of "[]"]
  have at: "pool_at lossy_os (\<lambda>b. b) nested_tree nested_config ([Worker 0] @ [Worker 0])
      nested_world =
       finish 0 (False, ''s/s/a'', ''d/./s/a'', 3, Some ''hash mismatch'')
         ((pool_at lossy_os (\<lambda>b. b) nested_tree nested_config [Worker 0] nested_world)
            \<lparr>p_world := ?w2,
             p_log := p_log (pool_at lossy_os (\<lambda>b. b) nested_tree nested_config [Worker 0]
                        nested_world) @ [''HASH MISMATCH '' @ ''s/s/a'' @ '' -> '' @ ''d/./s/a'']\<rparr>)"
    using inst by (rule conjunct1)
  have fin: "br_finished (backup_run lossy_os (\<lambda>b. b) nested_tree nested_config
      ([Worker 0] @ Worker 0 # []) nested_world) =
     (files_copied (pool_final lossy_os (\<lambda>b. b) nested_tree nested_config
        ([Worker 0] @ Worker 0 # []) nested_world), False,
      summary (files_copied (pool_final lossy_os (\<lambda>b. b) nested_tree nested_config
        ([Worker 0] @ Worker 0 # []) nested_world))
        (p_errors (pool_final lossy_os (\<lambda>b. b) nested_tree nested_config
        ([Worker 0] @ Worker 0 # []) nested_world)))"
    using inst lossy_final by blast
  have c1: "p_completed (pool_at lossy_os (\<lambda>b. b) nested_tree nested_config
      ([Worker 0] @ [Worker 0]) nested_world) =
      [(False, ''s/s/a'', ''d/./s/a'', 3, Some ''hash mismatch'')]"
    unfolding at using lossy_before by (simp add: finish_def)
  have c2: "p_log (pool_at lossy_os (\<lambda>b. b) nested_tree nested_config
      ([Worker 0] @ [Worker 0]) nested_world) =
      [start_line nested_config, ''HASH MISMATCH s/s/a -> d/./s/a'']"
    unfolding at using lossy_before by (simp add: finish_def)
  have c3: "br_finished (backup_run lossy_os (\<lambda>b. b) nested_tree nested_config
      ([Worker 0] @ Worker 0 # []) nested_world) =
     (0, False, ''DONE. Files copied: 0; Errors: 4'')"
    unfolding fin using lossy_final by (simp add: summary_def dec4)
  from h1 h2 h4 h5 h7 h8 h9 c1 c2 c3 show ?thesis
    by (intro conjI)
qed

end
